theory Spec2Isabelle
  imports Main "HOL-Library.Word" "HOL-Library.Signed_Division" "HOL-Library.Multiset"
begin

unbundle bit_operations_syntax

section \<open>Data model of package quantize\<close>

text \<open>
  \<^verbatim>\<open>color.RGBA\<close> is four 8-bit channels. \<^verbatim>\<open>colorPriority\<close> pairs a \<^verbatim>\<open>uint32\<close> weight
  \<^verbatim>\<open>p\<close> with an embedded \<^verbatim>\<open>color.RGBA\<close>; its zero value has weight 0, which the sparse
  table reads as an empty slot. A \<^verbatim>\<open>colorBucket\<close> is a slice of \<^verbatim>\<open>colorPriority\<close>.
\<close>

datatype RGBA = RGBA (R: "8 word") (G: "8 word") (B: "8 word") (A: "8 word")

datatype colorPriority = colorPriority (p: "32 word") (rgba: RGBA)

type_synonym colorBucket = "colorPriority list"

definition zeroCP :: colorPriority where
  "zeroCP = colorPriority 0 (RGBA 0 0 0 0)"

text \<open>
  Run-time panics of Go are values. A function that contains a loop without a bound
  returns \<open>(panic + 'a) option\<close>: \<open>None\<close> is a run that never returns, \<open>Some (Inl e)\<close> a
  panic, \<open>Some (Inr v)\<close> a normal return.
\<close>

datatype panic =
  InterfaceConversion | SliceBounds | MakeSliceLen | MakeSliceCap | IndexOutOfRange | DivideByZero
  | NegativeDimensions

text \<open>
  A slice that travels through the scratch pool is its visible elements plus the capacity
  of its backing array. The elements hidden between length and capacity are not tracked:
  \<^verbatim>\<open>getBucket\<close> overwrites every element it exposes before returning.

  \<^verbatim>\<open>sync.Pool\<close> stores values of type \<^verbatim>\<open>any\<close>; the dynamic types that matter here are
  \<^verbatim>\<open>colorBucket\<close> (what \<^verbatim>\<open>getBucket\<close> asserts) and \<^verbatim>\<open>*colorBucket\<close> (what
  \<^verbatim>\<open>QuantizeMultiple\<close> puts).
\<close>

datatype slice = Slice (elems: colorBucket) (cap: nat)

datatype iface = ColorBucketValue slice | ColorBucketPointer slice

record bucketPool =
  Pool :: "iface list"
  maxCap :: int

datatype AggregationType = AggregationType (aggCode: "8 word")

definition Mode :: AggregationType where "Mode = AggregationType 0"
definition Mean :: AggregationType where "Mean = AggregationType 1"

text \<open>
  An \<^verbatim>\<open>image.Image\<close> is an interface value of the standard library. The code observes it
  through \<^verbatim>\<open>Bounds()\<close>, through the type switch on \<^verbatim>\<open>*image.YCbCr\<close>, through the sample
  \<^verbatim>\<open>colorAt(m, x, y)\<close> that the quantizer reads and through \<^verbatim>\<open>m.At(x, y).RGBA()\<close> that
  the encoder reads (four 16-bit channels held in \<^verbatim>\<open>uint32\<close>). The model of an image is
  exactly these observations; \<open>colorAt m x y\<close> is the value the source function
  \<^verbatim>\<open>colorAt\<close> returns (for a YCbCr image the raw triple with alpha 255). Reads outside an
  image's pixel buffer, where the library panics, are outside the model.
\<close>

datatype Point = Point (X: int) (Y: int)

datatype Rectangle = Rectangle (RMin: Point) (RMax: Point)

type_synonym color16 = "32 word \<times> 32 word \<times> 32 word \<times> 32 word"

datatype image = Image (Bounds: Rectangle) (isYCbCr: bool)
  (colorAt: "int \<Rightarrow> int \<Rightarrow> RGBA") (At_RGBA: "int \<Rightarrow> int \<Rightarrow> color16")

record MedianCutQuantizer =
  Aggregation :: AggregationType
  Weighting :: "(image \<Rightarrow> int \<Rightarrow> int \<Rightarrow> 32 word) option"
  ReserveTransparent :: bool

section \<open>The scratch pool: getBucket\<close>

text \<open>
  \<^verbatim>\<open>Pool.Get\<close> may hand out any stored item or report nil even when items are stored. The
  choice is an argument: \<open>None\<close> for nil, \<open>Some i\<close> for the item at position \<open>i\<close>.
\<close>

definition Pool_Get :: "iface list \<Rightarrow> nat option \<Rightarrow> iface option \<times> iface list" where
  "Pool_Get items choice =
     (case choice of
        None \<Rightarrow> (None, items)
      | Some i \<Rightarrow> if i < length items then (Some (items ! i), take i items @ drop (Suc i) items)
                  else (None, items))"

definition Pool_Put :: "iface list \<Rightarrow> iface \<Rightarrow> iface list" where
  "Pool_Put items x = x # items"

definition make_slice :: "int \<Rightarrow> int \<Rightarrow> panic + slice" where
  "make_slice n c =
     (if n < 0 then Inl MakeSliceLen
      else if c < 0 \<or> n < c then Inl SliceBounds
      else Inr (Slice (replicate (nat c) zeroCP) (nat n)))"

definition getBucket :: "bucketPool \<Rightarrow> nat option \<Rightarrow> int \<Rightarrow> panic + slice \<times> bucketPool" where
  "getBucket bp choice c =
     (let m1 = (if maxCap bp > c then (maxCap bp * 99) sdiv 100 else maxCap bp);
          m2 = (if m1 < c then c else m1);
          (val, items) = Pool_Get (Pool bp) choice;
          bp' = \<lparr> Pool = items, maxCap = m2 \<rparr>
      in case val of
           None \<Rightarrow> map_sum id (\<lambda>s. (s, bp')) (make_slice m2 c)
         | Some (ColorBucketPointer s) \<Rightarrow> Inl InterfaceConversion
         | Some (ColorBucketValue s) \<Rightarrow>
             if int (cap s) < c then map_sum id (\<lambda>s. (s, bp')) (make_slice m2 c)
             else if c < 0 then Inl SliceBounds
             else Inr (Slice (replicate (nat c) zeroCP) (cap s), bp'))"

section \<open>Median cut: bucketize, palettize, quantizeSlice\<close>

text \<open>
  \<^verbatim>\<open>colorBucket.partition\<close> and \<^verbatim>\<open>colorBucket.mean\<close> are called by the code below but
  their file is not among the sources, so they are parameters (\<open>part\<close>, \<open>mean\<close>). A
  bucket handed to \<open>part\<close> is a sub-slice of the input; \<open>part\<close> reorders it in place and
  returns two adjacent sub-slices of it. The queue holds disjoint sub-slices, so a list of
  element lists describes it.

  The loop has no bound of its own: a bucket of fewer than two samples is put back at
  the end of the queue.
\<close>

partial_function (option) bucketize_loop ::
  "(colorBucket \<Rightarrow> colorBucket \<times> colorBucket) \<Rightarrow> int \<Rightarrow> colorBucket \<Rightarrow> colorBucket list
     \<Rightarrow> (panic + colorBucket list) option"
where
  "bucketize_loop part num colors buckets =
     (if int (length buckets) < num \<and> length buckets < length colors then
        (case buckets of
           [] \<Rightarrow> Some (Inl IndexOutOfRange)
         | bucket # rest \<Rightarrow>
             if length bucket < 2 then bucketize_loop part num colors (rest @ [bucket])
             else if length bucket = 2
               then bucketize_loop part num colors (rest @ [take 1 bucket, drop 1 bucket])
             else (case part bucket of
                     (left, right) \<Rightarrow> bucketize_loop part num colors (rest @ [left, right])))
      else Some (Inr buckets))"

declare bucketize_loop.simps [code]

text \<open>
  \<^verbatim>\<open>make([]colorBucket, 1, num*2)\<close> panics when the capacity is below the length, that
  is for a negative \<open>num\<close>. Capacities near \<open>2^62\<close>, where \<open>num*2\<close> would wrap, cannot
  be the free capacity of a palette that fits in memory.
\<close>

definition bucketize ::
  "(colorBucket \<Rightarrow> colorBucket \<times> colorBucket) \<Rightarrow> colorBucket \<Rightarrow> int
     \<Rightarrow> (panic + colorBucket list) option"
where
  "bucketize part colors num =
     (if length colors = 0 \<or> num = 0 then Some (Inr [])
      else if num * 2 < 1 then Some (Inl MakeSliceCap)
      else bucketize_loop part num colors [colors])"

definition mode_best :: "colorBucket \<Rightarrow> colorPriority" where
  "mode_best bucket = fold (\<lambda>c best. if p c > p best then c else best) bucket zeroCP"

definition palettize ::
  "(colorBucket \<Rightarrow> RGBA) \<Rightarrow> MedianCutQuantizer \<Rightarrow> RGBA list \<Rightarrow> colorBucket list \<Rightarrow> RGBA list"
where
  "palettize mean q pal buckets =
     fold (\<lambda>bucket pl.
             if Aggregation q = Mean then pl @ [mean bucket]
             else if Aggregation q = Mode then pl @ [rgba (mode_best bucket)]
             else pl)
          buckets pal"

text \<open>
  A palette is the list of its entries; \<open>capp\<close> is \<^verbatim>\<open>cap(p)\<close> of the slice the caller
  passed.
\<close>

definition quantizeSlice ::
  "(colorBucket \<Rightarrow> colorBucket \<times> colorBucket) \<Rightarrow> (colorBucket \<Rightarrow> RGBA) \<Rightarrow> MedianCutQuantizer
     \<Rightarrow> RGBA list \<Rightarrow> nat \<Rightarrow> colorBucket \<Rightarrow> (panic + RGBA list) option"
where
  "quantizeSlice part mean q pal capp colors =
     (let numColors = int capp - int (length pal);
          numColors = (if ReserveTransparent q then numColors - 1 else numColors)
      in case bucketize part colors numColors of
           None \<Rightarrow> None
         | Some (Inl e) \<Rightarrow> Some (Inl e)
         | Some (Inr buckets) \<Rightarrow> Some (Inr (palettize mean q pal buckets)))"

section \<open>The histogram: buildBucketMultiple\<close>

text \<open>
  Go's \<^verbatim>\<open>int\<close> is 64 bits wide here; \<open>wrap64\<close> is its wrap-around. \<^verbatim>\<open>%\<close> truncates
  towards zero (\<open>smod\<close>), so a negative \<^verbatim>\<open>index\<close> gives a negative slot and the indexing
  panics.
\<close>

definition wrap64 :: "int \<Rightarrow> int" where
  "wrap64 k = signed_take_bit 63 k"

text \<open>
  The collision loop \<^verbatim>\<open>for i := 1; ; i++\<close>. It returns the slot at which the source
  writes and breaks; the write itself is in \<open>scanPixel\<close>.
\<close>

partial_function (option) probe ::
  "colorBucket \<Rightarrow> int \<Rightarrow> RGBA \<Rightarrow> int \<Rightarrow> int \<Rightarrow> (panic + nat) option"
where
  "probe tbl sz c index i =
     (if sz = 0 then Some (Inl DivideByZero)
      else if index smod sz < 0 \<or> int (length tbl) \<le> index smod sz
        then Some (Inl IndexOutOfRange)
      else if p (tbl ! nat (index smod sz)) = 0 \<or> rgba (tbl ! nat (index smod sz)) = c
        then Some (Inr (nat (index smod sz)))
      else probe tbl sz c (wrap64 (index + wrap64 (1 + i))) (wrap64 (i + 1)))"

declare probe.simps [code]

definition hashIndex :: "RGBA \<Rightarrow> int" where
  "hashIndex c = push_bit 16 (uint (R c)) OR push_bit 8 (uint (G c)) OR uint (B c)"

type_synonym scanState = "MedianCutQuantizer \<times> colorBucket"

definition priorityAt :: "MedianCutQuantizer \<Rightarrow> image \<Rightarrow> int \<Rightarrow> int \<Rightarrow> 32 word" where
  "priorityAt q m x y = (case Weighting q of None \<Rightarrow> 1 | Some w \<Rightarrow> w m x y)"

text \<open>The body of the innermost loop, for the pixel \<open>(x, y)\<close> of image \<open>m\<close>.\<close>

definition scanPixel :: "int \<Rightarrow> image \<Rightarrow> int \<Rightarrow> int \<Rightarrow> scanState \<Rightarrow> (panic + scanState) option" where
  "scanPixel sz m y x st =
     (case st of (q, tbl) \<Rightarrow>
        let priority = priorityAt q m x y;
            c = colorAt m x y
        in if A c = 0 then
             Some (Inr (if \<not> ReserveTransparent q then q\<lparr>ReserveTransparent := True\<rparr> else q, tbl))
           else if priority \<noteq> 0 then
             (case probe tbl sz c (hashIndex c) 1 of
                None \<Rightarrow> None
              | Some (Inl e) \<Rightarrow> Some (Inl e)
              | Some (Inr k) \<Rightarrow>
                  Some (Inr (q, tbl[k := colorPriority (p (tbl ! k) + priority) c])))
           else Some (Inr st))"

text \<open>A \<^verbatim>\<open>for\<close> loop over a list whose body may panic or not return.\<close>

fun forEach :: "('a \<Rightarrow> 's \<Rightarrow> (panic + 's) option) \<Rightarrow> 'a list \<Rightarrow> 's \<Rightarrow> (panic + 's) option" where
  "forEach body [] s = Some (Inr s)"
| "forEach body (x # xs) s =
     (case body x s of
        None \<Rightarrow> None
      | Some (Inl e) \<Rightarrow> Some (Inl e)
      | Some (Inr s') \<Rightarrow> forEach body xs s')"

definition scanImages :: "Rectangle \<Rightarrow> int \<Rightarrow> image list \<Rightarrow> scanState \<Rightarrow> (panic + scanState) option" where
  "scanImages bounds sz ms st =
     forEach (\<lambda>m.
       forEach (\<lambda>y.
         forEach (\<lambda>x. scanPixel sz m y x)
           [X (RMin bounds) .. X (RMax bounds) - 1])
         [Y (RMin bounds) .. Y (RMax bounds) - 1])
       ms st"

text \<open>
  The dense bucket is built in the sparse buffer itself: \<^verbatim>\<open>bucket = sparseBucket[:0]\<close>
  and every \<^verbatim>\<open>append\<close> writes the next cell of the array the \<^verbatim>\<open>range\<close> loop is reading.
  \<open>compact\<close> keeps that array and the write position.
\<close>

definition compact :: "(colorPriority \<Rightarrow> colorPriority) \<Rightarrow> colorBucket \<Rightarrow> colorBucket" where
  "compact conv arr =
     (case fold (\<lambda>i (a, j). if p (a ! i) \<noteq> 0 then (a[j := conv (a ! i)], Suc j) else (a, j))
                [0 ..< length arr] (arr, 0)
      of (a, j) \<Rightarrow> take j a)"

definition convYCbCr ::
  "(8 word \<Rightarrow> 8 word \<Rightarrow> 8 word \<Rightarrow> 8 word \<times> 8 word \<times> 8 word) \<Rightarrow> colorPriority \<Rightarrow> colorPriority"
where
  "convYCbCr ycc e =
     (case ycc (R (rgba e)) (G (rgba e)) (B (rgba e)) of
        (r, g, b) \<Rightarrow> colorPriority (p e) (RGBA r g b (A (rgba e))))"

text \<open>
  \<open>ycc\<close> is \<^verbatim>\<open>color.YCbCrToRGB\<close> of the standard library. The result is the receiver
  (whose \<^verbatim>\<open>ReserveTransparent\<close> the scan may set), the dense bucket and the pool.
\<close>

definition buildBucketMultiple ::
  "(8 word \<Rightarrow> 8 word \<Rightarrow> 8 word \<Rightarrow> 8 word \<times> 8 word \<times> 8 word) \<Rightarrow> MedianCutQuantizer \<Rightarrow> image list
     \<Rightarrow> bucketPool \<Rightarrow> nat option \<Rightarrow> (panic + MedianCutQuantizer \<times> slice \<times> bucketPool) option"
where
  "buildBucketMultiple ycc q ms bp choice =
     (if length ms < 1 then Some (Inr (q, Slice [] 0, bp))
      else
        let bounds = Bounds (ms ! 0);
            sz = (X (RMax bounds) - X (RMin bounds)) * (Y (RMax bounds) - Y (RMin bounds)) * 2
        in case getBucket bp choice sz of
             Inl e \<Rightarrow> Some (Inl e)
           | Inr (sparseBucket, bp') \<Rightarrow>
               (case scanImages bounds sz ms (q, elems sparseBucket) of
                  None \<Rightarrow> None
                | Some (Inl e) \<Rightarrow> Some (Inl e)
                | Some (Inr (q', tbl)) \<Rightarrow>
                    Some (Inr (q',
                      Slice (compact (if isYCbCr (ms ! 0) then convYCbCr ycc else id) tbl)
                            (cap sparseBucket),
                      bp'))))"

text \<open>
  \<^verbatim>\<open>defer bpool.Put(&bucket)\<close> stores a pointer to the dense bucket once
  \<^verbatim>\<open>quantizeSlice\<close> is done.
\<close>

definition QuantizeMultiple ::
  "(colorBucket \<Rightarrow> colorBucket \<times> colorBucket) \<Rightarrow> (colorBucket \<Rightarrow> RGBA)
     \<Rightarrow> (8 word \<Rightarrow> 8 word \<Rightarrow> 8 word \<Rightarrow> 8 word \<times> 8 word \<times> 8 word)
     \<Rightarrow> MedianCutQuantizer \<Rightarrow> RGBA list \<Rightarrow> nat \<Rightarrow> image list \<Rightarrow> bucketPool \<Rightarrow> nat option
     \<Rightarrow> (panic + MedianCutQuantizer \<times> RGBA list \<times> bucketPool) option"
where
  "QuantizeMultiple part mean ycc q pal capp m bp choice =
     (case buildBucketMultiple ycc q m bp choice of
        None \<Rightarrow> None
      | Some (Inl e) \<Rightarrow> Some (Inl e)
      | Some (Inr (q', bucket, bp')) \<Rightarrow>
          (case quantizeSlice part mean q' pal capp (elems bucket) of
             None \<Rightarrow> None
           | Some (Inl e) \<Rightarrow> Some (Inl e)
           | Some (Inr pal') \<Rightarrow>
               Some (Inr (q', pal',
                 bp'\<lparr>Pool := Pool_Put (Pool bp') (ColorBucketPointer bucket)\<rparr>))))"

section \<open>The encode pass: EncodeGIF\<close>

text \<open>
  The source holds two versions of \<^verbatim>\<open>EncodeGIF\<close>. Both quantize with a fresh quantizer in
  \<^verbatim>\<open>Mode\<close> aggregation and an empty palette of capacity 256, append one transparent entry
  when \<^verbatim>\<open>ReserveTransparent\<close> came back set, and fill one \<^verbatim>\<open>image.Paletted\<close> per frame
  through the map \<^verbatim>\<open>animId\<close>. The version that takes \<^verbatim>\<open>delay\<close> writes
  \<^verbatim>\<open>transId = uint8(len(p))\<close> for a transparent pixel, the version that takes \<^verbatim>\<open>fps\<close>
  writes the constant 0. The model stops at the \<^verbatim>\<open>gif.GIF\<close> value handed to
  \<^verbatim>\<open>gif.EncodeAll\<close>: its palette and the \<^verbatim>\<open>Pix\<close> buffer of every frame. Delay and
  disposal are not modelled.

  \<open>idx\<close> is \<^verbatim>\<open>color.Palette.Index\<close> of the standard library, applied to the palette and
  to the channels of the pixel. \<open>searched\<close> is not in the source: it records, in order, the
  keys for which \<^verbatim>\<open>p.Index\<close> was called.
\<close>

type_synonym emitState = "(32 word \<rightharpoonup> 8 word) \<times> 32 word list \<times> 8 word list"

definition colorKey :: "color16 \<Rightarrow> 32 word" where
  "colorKey c = (case c of (cr, cg, cb, ca) \<Rightarrow> push_bit 16 (drop_bit 8 cr) OR cg OR drop_bit 8 cb)"

definition emitPixel ::
  "(RGBA list \<Rightarrow> color16 \<Rightarrow> int) \<Rightarrow> MedianCutQuantizer \<Rightarrow> RGBA list \<Rightarrow> 8 word \<Rightarrow> image
     \<Rightarrow> int \<Rightarrow> int \<Rightarrow> emitState \<Rightarrow> emitState"
where
  "emitPixel idx q pal transVal img y x st =
     (case st of (animId, searched, pix) \<Rightarrow>
        let c = At_RGBA img x y;
            ca = snd (snd (snd c));
            off = (y - Y (RMin (Bounds img))) * (X (RMax (Bounds img)) - X (RMin (Bounds img)))
                + (x - X (RMin (Bounds img)));
            cid = colorKey c
        in if ReserveTransparent q \<and> ca = 0 then (animId, searched, pix[nat off := transVal])
           else (case animId cid of
                   Some val \<Rightarrow> (animId, searched, pix[nat off := val])
                 | None \<Rightarrow>
                     let val = word_of_int (idx pal c)
                     in (animId(cid \<mapsto> val), searched @ [cid], pix[nat off := val])))"

text \<open>
  One frame: \<^verbatim>\<open>image.NewPaletted(bounds, p)\<close> allocates \<open>w * h\<close> zero bytes and panics on
  a negative width or height; then the two pixel loops run.
\<close>

definition emitFrame ::
  "(RGBA list \<Rightarrow> color16 \<Rightarrow> int) \<Rightarrow> MedianCutQuantizer \<Rightarrow> RGBA list \<Rightarrow> 8 word \<Rightarrow> image
     \<Rightarrow> (32 word \<rightharpoonup> 8 word) \<times> 32 word list \<times> 8 word list list
     \<Rightarrow> (panic + (32 word \<rightharpoonup> 8 word) \<times> 32 word list \<times> 8 word list list) option"
where
  "emitFrame idx q pal transVal img st =
     (case st of (animId, searched, frames) \<Rightarrow>
        let bounds = Bounds img;
            w = X (RMax bounds) - X (RMin bounds);
            h = Y (RMax bounds) - Y (RMin bounds)
        in if w < 0 \<or> h < 0 then Some (Inl NegativeDimensions)
           else
             (case fold (\<lambda>y. fold (\<lambda>x. emitPixel idx q pal transVal img y x)
                                 [X (RMin bounds) .. X (RMax bounds) - 1])
                        [Y (RMin bounds) .. Y (RMax bounds) - 1]
                        (animId, searched, replicate (nat (w * h)) 0)
              of (animId', searched', pix) \<Rightarrow> Some (Inr (animId', searched', frames @ [pix]))))"

record GIF =
  ColorModel :: "RGBA list"
  ImagePix :: "8 word list list"
  searched :: "32 word list"
  poolAfter :: bucketPool

datatype encodeResult = NoFramesProvided | Encoded GIF

definition encodeWith ::
  "bool \<Rightarrow> (colorBucket \<Rightarrow> colorBucket \<times> colorBucket) \<Rightarrow> (colorBucket \<Rightarrow> RGBA)
     \<Rightarrow> (8 word \<Rightarrow> 8 word \<Rightarrow> 8 word \<Rightarrow> 8 word \<times> 8 word \<times> 8 word)
     \<Rightarrow> (RGBA list \<Rightarrow> color16 \<Rightarrow> int)
     \<Rightarrow> image list \<Rightarrow> bucketPool \<Rightarrow> nat option \<Rightarrow> (panic + encodeResult) option"
where
  "encodeWith useTransId part mean ycc idx im bp choice =
     (if length im = 0 then Some (Inr NoFramesProvided)
      else
        let q = \<lparr> Aggregation = Mode, Weighting = None, ReserveTransparent = False \<rparr>
        in case QuantizeMultiple part mean ycc q [] 256 im bp choice of
             None \<Rightarrow> None
           | Some (Inl e) \<Rightarrow> Some (Inl e)
           | Some (Inr (q', pal, bp')) \<Rightarrow>
               let transId = (if ReserveTransparent q' \<and> useTransId then word_of_nat (length pal) else 0);
                   pal' = (if ReserveTransparent q' then pal @ [RGBA 0 0 0 0] else pal)
               in (case forEach (emitFrame idx q' pal' transId) im (Map.empty, [], []) of
                     None \<Rightarrow> None
                   | Some (Inl e) \<Rightarrow> Some (Inl e)
                   | Some (Inr (animId, srch, frames)) \<Rightarrow>
                       Some (Inr (Encoded \<lparr> ColorModel = pal', ImagePix = frames,
                                            searched = srch, poolAfter = bp' \<rparr>))))"

text \<open>The version with the \<^verbatim>\<open>delay\<close> argument.\<close>

definition EncodeGIF ::
  "(colorBucket \<Rightarrow> colorBucket \<times> colorBucket) \<Rightarrow> (colorBucket \<Rightarrow> RGBA)
     \<Rightarrow> (8 word \<Rightarrow> 8 word \<Rightarrow> 8 word \<Rightarrow> 8 word \<times> 8 word \<times> 8 word)
     \<Rightarrow> (RGBA list \<Rightarrow> color16 \<Rightarrow> int)
     \<Rightarrow> image list \<Rightarrow> bucketPool \<Rightarrow> nat option \<Rightarrow> (panic + encodeResult) option"
where
  "EncodeGIF = encodeWith True"

text \<open>The version with the \<^verbatim>\<open>fps\<close> argument: \<^verbatim>\<open>dst.Pix[o] = 0\<close> for a transparent pixel.\<close>

definition EncodeGIF_fps ::
  "(colorBucket \<Rightarrow> colorBucket \<times> colorBucket) \<Rightarrow> (colorBucket \<Rightarrow> RGBA)
     \<Rightarrow> (8 word \<Rightarrow> 8 word \<Rightarrow> 8 word \<Rightarrow> 8 word \<times> 8 word \<times> 8 word)
     \<Rightarrow> (RGBA list \<Rightarrow> color16 \<Rightarrow> int)
     \<Rightarrow> image list \<Rightarrow> bucketPool \<Rightarrow> nat option \<Rightarrow> (panic + encodeResult) option"
where
  "EncodeGIF_fps = encodeWith False"

section \<open>Standard-library functions and the missing bucket methods\<close>

text \<open>
  The theorems below hold for every \<open>ycc\<close> and \<open>idx\<close>. For runs on concrete frames the
  standard library's own functions are written out: \<^verbatim>\<open>color.RGBA.RGBA\<close>,
  \<^verbatim>\<open>color.YCbCrToRGB\<close> and \<^verbatim>\<open>color.Palette.Index\<close> (with \<^verbatim>\<open>sqDiff\<close>), the latter on a
  palette of \<^verbatim>\<open>color.RGBA\<close> entries.
\<close>

definition RGBA_RGBA :: "RGBA \<Rightarrow> color16" where
  "RGBA_RGBA c =
     (ucast (R c) OR push_bit 8 (ucast (R c)), ucast (G c) OR push_bit 8 (ucast (G c)),
      ucast (B c) OR push_bit 8 (ucast (B c)), ucast (A c) OR push_bit 8 (ucast (A c)))"

definition clamp8 :: "int \<Rightarrow> 8 word" where
  "clamp8 v = (if take_bit 32 v AND 0xff000000 = 0 then word_of_int (drop_bit 16 v)
               else word_of_int (NOT (drop_bit 31 v)))"

definition YCbCrToRGB :: "8 word \<Rightarrow> 8 word \<Rightarrow> 8 word \<Rightarrow> 8 word \<times> 8 word \<times> 8 word" where
  "YCbCrToRGB y cb cr =
     (let yy1 = uint y * 0x10101;
          cb1 = uint cb - 128;
          cr1 = uint cr - 128
      in (clamp8 (yy1 + 91881 * cr1),
          clamp8 (yy1 - 22554 * cb1 - 46802 * cr1),
          clamp8 (yy1 + 116130 * cb1)))"

definition sqDiff :: "32 word \<Rightarrow> 32 word \<Rightarrow> 32 word" where
  "sqDiff x y = drop_bit 2 ((x - y) * (x - y))"

fun Index_loop :: "RGBA list \<Rightarrow> color16 \<Rightarrow> int \<Rightarrow> int \<Rightarrow> 32 word \<Rightarrow> int" where
  "Index_loop [] c i ret bestSum = ret"
| "Index_loop (v # vs) c i ret bestSum =
     (case (c, RGBA_RGBA v) of
        ((cr, cg, cb, ca), (vr, vg, vb, va)) \<Rightarrow>
          let sum = sqDiff cr vr + sqDiff cg vg + sqDiff cb vb + sqDiff ca va
          in if sum < bestSum then
               (if sum = 0 then i else Index_loop vs c (i + 1) i sum)
             else Index_loop vs c (i + 1) ret bestSum)"

definition Palette_Index :: "RGBA list \<Rightarrow> color16 \<Rightarrow> int" where
  "Palette_Index pal c = Index_loop pal c 0 0 (2 ^ 32 - 1)"

text \<open>An \<^verbatim>\<open>*image.RGBA\<close> raster: \<^verbatim>\<open>colorAt\<close> reads the four bytes of the pixel.\<close>

definition rgbaImage :: "Rectangle \<Rightarrow> (int \<Rightarrow> int \<Rightarrow> RGBA) \<Rightarrow> image" where
  "rgbaImage r pix = Image r False pix (\<lambda>x y. RGBA_RGBA (pix x y))"

definition solid :: "int \<Rightarrow> int \<Rightarrow> RGBA \<Rightarrow> image" where
  "solid w h c = rgbaImage (Rectangle (Point 0 0) (Point w h)) (\<lambda>x y. c)"

definition emptyPool :: bucketPool where
  "emptyPool = \<lparr> Pool = [], maxCap = 0 \<rparr>"

definition totalWeight :: "colorBucket \<Rightarrow> nat" where
  "totalWeight b = sum_list (map (\<lambda>e. unat (p e)) b)"

text \<open>
  Modelled from the spec: the contract of \<^verbatim>\<open>colorBucket.partition\<close>, whose definition is
  not among the sources. Section 4.2 has it split a bucket of three or more samples into
  two halves that are requeued; section 3 requires every bucket produced by partitioning to
  be non-empty and no sample to be created, dropped or duplicated.
\<close>

definition partition_contract :: "(colorBucket \<Rightarrow> colorBucket \<times> colorBucket) \<Rightarrow> bool" where
  "partition_contract part \<longleftrightarrow>
     (\<forall>b. 3 \<le> length b \<longrightarrow>
        fst (part b) \<noteq> [] \<and> snd (part b) \<noteq> [] \<and> mset (fst (part b)) + mset (snd (part b)) = mset b)"

text \<open>
  Modelled from the spec: \<^verbatim>\<open>colorBucket.partition\<close> itself, for runs on concrete buckets.
  Section 4.2: pick the channel (R, G or B) with the greatest value spread, the first such
  channel on a tie; sort by that channel; split at the position that balances the total
  weight of the halves as evenly as possible, the first such position on a tie.
\<close>

definition chan :: "nat \<Rightarrow> colorPriority \<Rightarrow> nat" where
  "chan k e = (if k = 0 then unat (R (rgba e)) else if k = 1 then unat (G (rgba e)) else unat (B (rgba e)))"

definition spread :: "nat \<Rightarrow> colorBucket \<Rightarrow> nat" where
  "spread k b = fold max (map (chan k) b) 0 - fold min (map (chan k) b) 255"

definition widest :: "colorBucket \<Rightarrow> nat" where
  "widest b =
     (if spread 1 b \<le> spread 0 b \<and> spread 2 b \<le> spread 0 b then 0
      else if spread 2 b \<le> spread 1 b then 1 else 2)"

definition imbalance :: "colorBucket \<Rightarrow> nat \<Rightarrow> int" where
  "imbalance s k = \<bar>int (totalWeight (take k s)) - int (totalWeight (drop k s))\<bar>"

definition cutPosition :: "colorBucket \<Rightarrow> nat" where
  "cutPosition s = fold (\<lambda>k best. if imbalance s k < imbalance s best then k else best) [2 ..< length s] 1"

definition partition_cb :: "colorBucket \<Rightarrow> colorBucket \<times> colorBucket" where
  "partition_cb b =
     (let s = sort_key (chan (widest b)) b;
          k = cutPosition s
      in (take k s, drop k s))"

text \<open>
  Modelled from the spec: \<^verbatim>\<open>colorBucket.mean\<close>, not among the sources. Section 4.3: the
  weight-proportional average per channel over the samples of the bucket, rounded to the
  nearest 8-bit value.
\<close>

definition weightedAvg :: "(RGBA \<Rightarrow> 8 word) \<Rightarrow> colorBucket \<Rightarrow> 8 word" where
  "weightedAvg ch b =
     word_of_nat ((2 * sum_list (map (\<lambda>e. unat (p e) * unat (ch (rgba e))) b) + totalWeight b)
                   div (2 * totalWeight b))"

definition mean_cb :: "colorBucket \<Rightarrow> RGBA" where
  "mean_cb b = RGBA (weightedAvg R b) (weightedAvg G b) (weightedAvg B b) (weightedAvg A b)"

section \<open>Concrete inputs\<close>

definition returns :: "(panic + 'a) option \<Rightarrow> bool" where
  "returns r = (case r of Some (Inr v) \<Rightarrow> True | _ \<Rightarrow> False)"

text \<open>A frame of two pixels in one row: opaque red, then fully transparent.\<close>

definition twoPixels :: image where
  "twoPixels = rgbaImage (Rectangle (Point 0 0) (Point 2 1))
                 (\<lambda>x y. if x = 0 then RGBA 255 0 0 255 else RGBA 0 0 0 0)"

text \<open>
  65536 frames of 256x256 pixels, all opaque red: \<open>2^32\<close> scanned pixels of one color.
\<close>

definition redFrames :: "image list" where
  "redFrames = replicate 65536 (solid 256 256 (RGBA 255 0 0 255))"

text \<open>
  One row of five opaque pixels in two colors whose table slots collide, and a weighting
  that gives the first pixel the weight \<open>2^32 - 1\<close> and every other pixel the weight 1.
\<close>

definition wrapFrame :: image where
  "wrapFrame = rgbaImage (Rectangle (Point 0 0) (Point 5 1))
                 (\<lambda>x y. if x = 1 \<or> x = 3 then RGBA 0 0 1 255 else RGBA 0 0 11 255)"

definition heavy :: "image \<Rightarrow> int \<Rightarrow> int \<Rightarrow> 32 word" where
  "heavy m x y = (if x = 0 then 4294967295 else 1)"

text \<open>Three 2x2 frames: red, green, blue.\<close>

definition rgbFrames :: "image list" where
  "rgbFrames = [solid 2 2 (RGBA 255 0 0 255), solid 2 2 (RGBA 0 255 0 255), solid 2 2 (RGBA 0 0 255 255)]"

section \<open>Invariants used in the proofs\<close>




text \<open>
  The work queue of \<^verbatim>\<open>bucketize\<close>: no bucket is empty and the buckets together hold
  exactly the samples of the input.
\<close>

definition bucketsInv :: "colorBucket \<Rightarrow> colorBucket list \<Rightarrow> bool" where
  "bucketsInv colors bs \<longleftrightarrow> list_all (\<lambda>b. b \<noteq> []) bs \<and> mset (concat bs) = mset colors"

text \<open>
  The pixels the three nested loops of \<^verbatim>\<open>buildBucketMultiple\<close> visit, in order: every
  image of the list, over the bounds of the first one.
\<close>

definition scanned :: "Rectangle \<Rightarrow> image list \<Rightarrow> (image \<times> int \<times> int) list" where
  "scanned bounds ms =
     concat (map (\<lambda>m. concat (map (\<lambda>y. map (\<lambda>x. (m, y, x))
                                          [X (RMin bounds) .. X (RMax bounds) - 1])
                                [Y (RMin bounds) .. Y (RMax bounds) - 1])) ms)"

definition sampleOf :: "image \<times> int \<times> int \<Rightarrow> RGBA" where
  "sampleOf px = (case px of (m, y, x) \<Rightarrow> colorAt m x y)"

definition opaque :: "image \<times> int \<times> int \<Rightarrow> bool" where
  "opaque px \<longleftrightarrow> A (sampleOf px) \<noteq> 0"

text \<open>
  The weight a scanned pixel adds to the table: nothing for alpha 0, else its priority.
\<close>

definition weightOf :: "MedianCutQuantizer \<Rightarrow> image \<times> int \<times> int \<Rightarrow> nat" where
  "weightOf q px = (case px of (m, y, x) \<Rightarrow> if opaque px then unat (priorityAt q m x y) else 0)"

text \<open>A slot at which the collision loop stops for color \<open>c\<close>: empty, or holding \<open>c\<close>.\<close>

definition stopSlot :: "colorBucket \<Rightarrow> RGBA \<Rightarrow> nat \<Rightarrow> bool" where
  "stopSlot tbl c k \<longleftrightarrow> k < length tbl \<and> (p (tbl ! k) = 0 \<or> rgba (tbl ! k) = c)"

text \<open>Three 1x1 frames of three different opaque colors.\<close>

definition threeFrames :: "image list" where
  "threeFrames = [solid 1 1 (RGBA 0 0 0 255), solid 1 1 (RGBA 0 0 1 255), solid 1 1 (RGBA 0 0 2 255)]"

text \<open>
  The sparse table during the scan: every slot in use holds a color that was scanned, and
  the collision loop run for that color ends at that very slot.
\<close>

definition tableInv :: "int \<Rightarrow> colorBucket \<Rightarrow> RGBA set \<Rightarrow> bool" where
  "tableInv sz tbl seen \<longleftrightarrow>
     (\<forall>k < length tbl. p (tbl ! k) \<noteq> 0 \<longrightarrow>
        rgba (tbl ! k) \<in> seen \<and>
        probe tbl sz (rgba (tbl ! k)) (hashIndex (rgba (tbl ! k))) 1 = Some (Inr k))"

text \<open>The distinct colors of the scanned pixels of non-zero alpha.\<close>

definition opaqueColors :: "Rectangle \<Rightarrow> image list \<Rightarrow> RGBA set" where
  "opaqueColors bounds ms = sampleOf ` {px \<in> set (scanned bounds ms). opaque px}"



section \<open>The scratch pool\<close>

text \<open>
  C9. \<^verbatim>\<open>getBucket(c)\<close> is claimed to return \<open>c\<close> zero samples whether the buffer is fresh
  or reused. The only items the pool ever holds are the pointers that \<^verbatim>\<open>QuantizeMultiple\<close>
  puts with \<^verbatim>\<open>bpool.Put(&bucket)\<close>, and \<^verbatim>\<open>getBucket\<close> asserts \<^verbatim>\<open>val.(colorBucket)\<close>: the
  first \<^verbatim>\<open>getBucket\<close> that is handed the buffer of an earlier call panics. Here one
  \<^verbatim>\<open>QuantizeMultiple\<close> of a red 1x1 frame runs on the empty pool, then \<^verbatim>\<open>getBucket(2)\<close>
  on the pool it leaves.
\<close>

theorem getBucket_reuse_panics:
  "map_option (map_sum id (\<lambda>(q, pal, bp). (pal, bp, getBucket bp (Some 0) 2)))
     (QuantizeMultiple partition_cb mean_cb YCbCrToRGB
        \<lparr> Aggregation = Mode, Weighting = None, ReserveTransparent = False \<rparr>
        [] 256 [solid 1 1 (RGBA 255 0 0 255)] emptyPool None)
   = Some (Inr ([RGBA 255 0 0 255],
        \<lparr>Pool = [ColorBucketPointer (Slice [colorPriority 1 (RGBA 255 0 0 255)] 2)], maxCap = 2\<rparr>,
        Inl InterfaceConversion))"
  by code_simp

section \<open>The encode pass\<close>

text \<open>
  C2. Every pixel of alpha 0 is claimed to be emitted with the index of the reserved
  transparent slot. On the frame \<open>twoPixels\<close> both versions build the palette
  \<open>[red, transparent]\<close>, so the reserved slot is 1. The \<^verbatim>\<open>fps\<close> version writes 0, the index
  of red, for the transparent pixel; the \<^verbatim>\<open>delay\<close> version writes 1.
\<close>

theorem EncodeGIF_fps_transparent_pixel_gets_index_0:
  "map_option (map_sum id (\<lambda>r. case r of Encoded g \<Rightarrow> (ColorModel g, ImagePix g)))
     (EncodeGIF_fps partition_cb mean_cb YCbCrToRGB Palette_Index [twoPixels] emptyPool None)
   = Some (Inr ([RGBA 255 0 0 255, RGBA 0 0 0 0], [[0, 0]]))
   \<and> map_option (map_sum id (\<lambda>r. case r of Encoded g \<Rightarrow> (ColorModel g, ImagePix g)))
     (EncodeGIF partition_cb mean_cb YCbCrToRGB Palette_Index [twoPixels] emptyPool None)
   = Some (Inr ([RGBA 255 0 0 255, RGBA 0 0 0 0], [[0, 1]]))"
  by code_simp

text \<open>
  C7. Two runs on identical frames are claimed to give identical palettes and index
  buffers whatever the pool holds from earlier calls. The first run below starts on the
  empty pool and returns; the second run gets the same frame and the pool the first one
  left, \<^verbatim>\<open>Pool.Get\<close> hands out the stored pointer, and the run panics in \<^verbatim>\<open>getBucket\<close>.
\<close>

theorem EncodeGIF_second_run_panics:
  "EncodeGIF partition_cb mean_cb YCbCrToRGB Palette_Index [solid 1 1 (RGBA 255 0 0 255)]
     emptyPool None
   = Some (Inr (Encoded \<lparr> ColorModel = [RGBA 255 0 0 255], ImagePix = [[0]],
        searched = [16711680],
        poolAfter = \<lparr>Pool = [ColorBucketPointer (Slice [colorPriority 1 (RGBA 255 0 0 255)] 2)],
                      maxCap = 2\<rparr> \<rparr>))
   \<and> EncodeGIF partition_cb mean_cb YCbCrToRGB Palette_Index [solid 1 1 (RGBA 255 0 0 255)]
       \<lparr>Pool = [ColorBucketPointer (Slice [colorPriority 1 (RGBA 255 0 0 255)] 2)], maxCap = 2\<rparr>
       (Some 0)
   = Some (Inl InterfaceConversion)"
  by code_simp

section \<open>The median-cut loop returns\<close>

lemma concat_singletons_length:
  "(\<And>b. b \<in> set bs \<Longrightarrow> length b = 1) \<Longrightarrow> length (concat bs) = length bs"
  by (induction bs) auto

lemma length_le_concat:
  "(\<And>b. b \<in> set bs \<Longrightarrow> b \<noteq> []) \<Longrightarrow> length bs \<le> length (concat bs)"
proof (induction bs)
  case Nil
  then show ?case by simp
next
  case (Cons b bs)
  have "b \<noteq> []" using Cons.prems by simp
  then have "1 \<le> length b" by (cases b) auto
  moreover have "length bs \<le> length (concat bs)" using Cons by simp
  ultimately show ?case by simp
qed

lemma exists_big_bucket:
  assumes ne: "\<And>b. b \<in> set bs \<Longrightarrow> b \<noteq> []" and lt: "length bs < length (concat bs)"
  shows "\<exists>b\<in>set bs. 2 \<le> length b"
proof (rule ccontr)
  assume "\<not> (\<exists>b\<in>set bs. 2 \<le> length b)"
  then have nb: "\<And>b. b \<in> set bs \<Longrightarrow> \<not> 2 \<le> length b" by blast
  have "length b = 1" if "b \<in> set bs" for b
  proof -
    have "length b \<noteq> 0" using ne[OF that] by simp
    then show ?thesis using nb[OF that] by linarith
  qed
  then have "length (concat bs) = length bs" by (rule concat_singletons_length)
  with lt show False by simp
qed

lemma takeWhile_rotate:
  assumes "length b < 2" "\<exists>x\<in>set rest. \<not> length x < (2::nat)"
  shows "length (takeWhile (\<lambda>x. length x < 2) (rest @ [b])) < length (takeWhile (\<lambda>x. length x < 2) (b # rest))"
proof -
  from assms(2) obtain x where "x \<in> set rest" "\<not> length x < 2" by blast
  then have "takeWhile (\<lambda>x. length x < 2) (rest @ [b]) = takeWhile (\<lambda>x. length x < 2) rest"
    by (rule takeWhile_append1)
  then show ?thesis using assms(1) by simp
qed

lemma bl_exit:
  "\<not> (int (length buckets) < num \<and> length buckets < length colors) \<Longrightarrow>
     bucketize_loop part num colors buckets = Some (Inr buckets)"
  by (subst bucketize_loop.simps) (simp only: if_False)

lemma bl_small:
  "int (length (bucket # rest)) < num \<and> length (bucket # rest) < length colors \<Longrightarrow> length bucket < 2 \<Longrightarrow>
     bucketize_loop part num colors (bucket # rest) = bucketize_loop part num colors (rest @ [bucket])"
  by (subst bucketize_loop.simps) (simp only: if_True list.case simp_thms)

lemma bl_two:
  "int (length (bucket # rest)) < num \<and> length (bucket # rest) < length colors \<Longrightarrow> length bucket = 2 \<Longrightarrow>
     bucketize_loop part num colors (bucket # rest)
       = bucketize_loop part num colors (rest @ [take 1 bucket, drop 1 bucket])"
  by (subst bucketize_loop.simps) (simp only: if_True list.case simp_thms, simp)

lemma bl_more:
  "int (length (bucket # rest)) < num \<and> length (bucket # rest) < length colors \<Longrightarrow> 3 \<le> length bucket \<Longrightarrow>
     part bucket = (left, right) \<Longrightarrow>
     bucketize_loop part num colors (bucket # rest) = bucketize_loop part num colors (rest @ [left, right])"
  by (subst bucketize_loop.simps) (simp only: if_True list.case simp_thms, simp)

lemma bucketsInv_rotate: "bucketsInv colors (b # rest) \<Longrightarrow> bucketsInv colors (rest @ [b])"
  unfolding bucketsInv_def by (auto simp: add.commute)

lemma bucketsInv_split:
  assumes "bucketsInv colors (b # rest)" "l \<noteq> []" "r \<noteq> []" "mset l + mset r = mset b"
  shows "bucketsInv colors (rest @ [l, r])"
proof -
  have "mset (concat (rest @ [l, r])) = mset (concat rest) + (mset l + mset r)" by simp
  also have "\<dots> = mset (concat (b # rest))" using assms(4) by (simp add: add.commute)
  also have "\<dots> = mset colors" using assms(1) by (simp only: bucketsInv_def)
  finally have "mset (concat (rest @ [l, r])) = mset colors" .
  moreover have "list_all (\<lambda>b. b \<noteq> []) (rest @ [l, r])"
    using assms(1-3) by (simp add: bucketsInv_def)
  ultimately show ?thesis by (simp only: bucketsInv_def)
qed

lemma measure_grow:
  "length bs < n \<Longrightarrow> length bs' = Suc (length bs) \<Longrightarrow>
     (bs', bs) \<in> measures [\<lambda>bs. n - length bs, g]"
  by (simp, arith)

lemma bucketsInv_length: "bucketsInv colors bs \<Longrightarrow> length (concat bs) = length colors"
  unfolding bucketsInv_def by (metis size_mset)

lemma bucketize_loop_returns:
  assumes pc: "partition_contract part"
  shows "bucketsInv colors buckets \<Longrightarrow>
    \<exists>bs. bucketize_loop part num colors buckets = Some (Inr bs) \<and> bucketsInv colors bs \<and>
      length bs = max (length buckets) (nat (min num (int (length colors))))"
proof (induction buckets rule: wf_induct_rule[OF wf_measures[of "[\<lambda>bs. length colors - length bs, \<lambda>bs. length (takeWhile (\<lambda>x. length x < 2) bs)]"]])
  case (1 buckets)
  note inv = \<open>bucketsInv colors buckets\<close>
  have ne: "\<And>b. b \<in> set buckets \<Longrightarrow> b \<noteq> []" using inv by (simp add: bucketsInv_def list_all_iff)
  have len: "length (concat buckets) = length colors" using inv by (rule bucketsInv_length)
  have lele: "length buckets \<le> length colors" using length_le_concat[of buckets] ne len by simp
  show ?case
  proof (cases "int (length buckets) < num \<and> length buckets < length colors")
    case False
    then have "bucketize_loop part num colors buckets = Some (Inr buckets)"
      by (rule bl_exit)
    moreover have "length buckets = max (length buckets) (nat (min num (int (length colors))))"
      using False lele by (auto simp: max_def min_def)
    ultimately show ?thesis using inv by simp
  next
    case True
    then obtain bucket rest where br: "buckets = bucket # rest" using len by (cases buckets) auto
    have big: "\<exists>b\<in>set buckets. 2 \<le> length b"
      using exists_big_bucket[of buckets] ne len True by simp
    have tgt: "max (Suc (length buckets)) (nat (min num (int (length colors)))) = max (length buckets) (nat (min num (int (length colors))))"
      using True by (auto simp: max_def min_def)
    consider (small) "length bucket < 2" | (two) "length bucket = 2" | (more) "3 \<le> length bucket"
      by linarith
    then show ?thesis
    proof cases
      case small
      let ?next = "rest @ [bucket]"
      have "\<exists>x\<in>set rest. \<not> length x < 2" using big small br by (auto simp: not_less)
      then have dec: "(?next, buckets) \<in> measures [\<lambda>bs. length colors - length bs, \<lambda>bs. length (takeWhile (\<lambda>x. length x < 2) bs)]"
        using takeWhile_rotate[OF small] br by simp
      have inv': "bucketsInv colors ?next" using inv br bucketsInv_rotate by simp
      from "1.IH"[OF dec inv'] obtain bs where
        "bucketize_loop part num colors ?next = Some (Inr bs)" "bucketsInv colors bs"
        "length bs = max (length ?next) (nat (min num (int (length colors))))" by blast
      moreover have "bucketize_loop part num colors buckets = bucketize_loop part num colors ?next"
        using bl_small[of bucket rest num colors part] True small br by simp
      ultimately show ?thesis using br by simp
    next
      case two
      let ?next = "rest @ [take 1 bucket, drop 1 bucket]"
      have dec: "(?next, buckets) \<in> measures [\<lambda>bs. length colors - length bs, \<lambda>bs. length (takeWhile (\<lambda>x. length x < 2) bs)]"
        using True br by (intro measure_grow) simp_all
      have "mset (take 1 bucket) + mset (drop 1 bucket) = mset bucket"
        by (metis append_take_drop_id mset_append)
      moreover have "take 1 bucket \<noteq> []" "drop 1 bucket \<noteq> []" using two by auto
      ultimately have inv': "bucketsInv colors ?next" using inv br bucketsInv_split by blast
      from "1.IH"[OF dec inv'] obtain bs where
        r: "bucketize_loop part num colors ?next = Some (Inr bs)" "bucketsInv colors bs"
        and L: "length bs = max (length ?next) (nat (min num (int (length colors))))" by blast
      have "length ?next = Suc (length buckets)" using br by simp
      then have "length bs = max (length buckets) (nat (min num (int (length colors))))"
        using L tgt by (simp only:)
      moreover have "bucketize_loop part num colors buckets = bucketize_loop part num colors ?next"
        using bl_two[of bucket rest num colors part] True two br by simp
      ultimately show ?thesis using r by simp
    next
      case more
      obtain left right where lr: "part bucket = (left, right)" by (cases "part bucket")
      let ?next = "rest @ [left, right]"
      have c: "left \<noteq> []" "right \<noteq> []" "mset left + mset right = mset bucket"
        using pc more lr unfolding partition_contract_def by (metis fst_conv snd_conv)+
      have dec: "(?next, buckets) \<in> measures [\<lambda>bs. length colors - length bs, \<lambda>bs. length (takeWhile (\<lambda>x. length x < 2) bs)]"
        using True br by (intro measure_grow) simp_all
      have inv': "bucketsInv colors ?next" using inv br c bucketsInv_split by blast
      from "1.IH"[OF dec inv'] obtain bs where
        r: "bucketize_loop part num colors ?next = Some (Inr bs)" "bucketsInv colors bs"
        and L: "length bs = max (length ?next) (nat (min num (int (length colors))))" by blast
      have "length ?next = Suc (length buckets)" using br by simp
      then have "length bs = max (length buckets) (nat (min num (int (length colors))))"
        using L tgt by (simp only:)
      moreover have "bucketize_loop part num colors buckets = bucketize_loop part num colors ?next"
        using bl_more[of bucket rest num colors part left right] True more br lr by simp
      ultimately show ?thesis using r by simp
    qed
  qed
qed

section \<open>Median cut: counts, non-empty buckets, conserved weight\<close>

lemma totalWeight_mset: "mset xs = mset ys \<Longrightarrow> totalWeight xs = totalWeight ys"
proof -
  assume "mset xs = mset ys"
  then have "mset (map (\<lambda>e. unat (p e)) xs) = mset (map (\<lambda>e. unat (p e)) ys)"
    by (metis mset_map)
  then have "sum_mset (mset (map (\<lambda>e. unat (p e)) xs)) = sum_mset (mset (map (\<lambda>e. unat (p e)) ys))"
    by simp
  then show ?thesis unfolding totalWeight_def by (simp only: sum_mset_sum_list)
qed

lemma totalWeight_concat: "totalWeight (concat bs) = sum_list (map totalWeight bs)"
  by (induction bs) (simp_all add: totalWeight_def)

lemma bucketize_returns:
  assumes pc: "partition_contract part" and ne: "colors \<noteq> []" and num: "1 \<le> num"
  shows "\<exists>bs. bucketize part colors num = Some (Inr bs) \<and> bucketsInv colors bs \<and>
           int (length bs) = min num (int (length colors))"
proof -
  have inv: "bucketsInv colors [colors]" using ne by (simp add: bucketsInv_def)
  from bucketize_loop_returns[OF pc inv, of num] obtain bs where
    r: "bucketize_loop part num colors [colors] = Some (Inr bs)" "bucketsInv colors bs"
    and L: "length bs = max (length [colors]) (nat (min num (int (length colors))))" by blast
  have "1 \<le> length colors" using ne by (cases colors) auto
  then have "int (length bs) = min num (int (length colors))" using L num by (auto simp: max_def min_def)
  moreover have "bucketize part colors num = bucketize_loop part num colors [colors]"
    using ne num by (simp add: bucketize_def)
  ultimately show ?thesis using r by simp
qed

text \<open>
  C4. For a non-empty bucket and a target \<open>num\<close> of at least 1, \<^verbatim>\<open>bucketize\<close> returns, with
  at most \<open>num\<close> buckets, at least \<open>min num d\<close> buckets where \<open>d\<close> is the number of
  distinct colors of the input, and no empty bucket. \<open>part\<close> is any partition method that
  keeps its contract.
\<close>

theorem bucketize_count_and_nonempty:
  assumes "partition_contract part" and "colors \<noteq> []" and "1 \<le> num"
  shows "\<exists>bs. bucketize part colors num = Some (Inr bs) \<and>
           int (length bs) \<le> num \<and>
           min num (int (card (rgba ` set colors))) \<le> int (length bs) \<and>
           list_all (\<lambda>b. b \<noteq> []) bs"
proof -
  from bucketize_returns[OF assms] obtain bs where
    r: "bucketize part colors num = Some (Inr bs)" and inv: "bucketsInv colors bs"
    and L: "int (length bs) = min num (int (length colors))" by blast
  have "card (rgba ` set colors) \<le> card (set colors)" by (rule card_image_le) simp
  also have "\<dots> \<le> length colors" by (rule card_length)
  finally have "min num (int (card (rgba ` set colors))) \<le> int (length bs)" using L by simp
  moreover have "int (length bs) \<le> num" using L by simp
  moreover have "list_all (\<lambda>b. b \<noteq> []) bs" using inv by (simp add: bucketsInv_def)
  ultimately show ?thesis using r by blast
qed

text \<open>
  C3, as amended: for a target \<open>num\<close> of at least 1, \<^verbatim>\<open>bucketize\<close> returns buckets that hold
  exactly the samples of the input, so their total weight is the total weight of the input.
\<close>

theorem bucketize_conserves_weight:
  assumes "partition_contract part" and "1 \<le> num"
  shows "\<exists>bs. bucketize part colors num = Some (Inr bs) \<and>
           mset (concat bs) = mset colors \<and>
           sum_list (map totalWeight bs) = totalWeight colors"
proof (cases "colors = []")
  case True
  then show ?thesis by (simp add: bucketize_def totalWeight_def)
next
  case False
  from bucketize_returns[OF assms(1) False assms(2)] obtain bs where
    r: "bucketize part colors num = Some (Inr bs)" and inv: "bucketsInv colors bs" by blast
  have m: "mset (concat bs) = mset colors" using inv by (simp add: bucketsInv_def)
  have "sum_list (map totalWeight bs) = totalWeight colors"
    using totalWeight_mset[OF m] by (simp add: totalWeight_concat)
  then show ?thesis using r m by blast
qed

text \<open>
  C3 as stated covers every target count. With target 0 the guard at the head of
  \<^verbatim>\<open>bucketize\<close> returns no bucket at all, and the weight of the input is gone.
\<close>

theorem bucketize_zero_target_drops_weight:
  "bucketize partition_cb [colorPriority 1 (RGBA 255 0 0 255)] 0 = Some (Inr [])
   \<and> sum_list (map totalWeight []) \<noteq> totalWeight [colorPriority 1 (RGBA 255 0 0 255)]"
  by (simp add: bucketize_def totalWeight_def)

text \<open>The partition method modelled from the spec keeps the contract.\<close>

lemma fold_pick_mem:
  "fold (\<lambda>k best. if P k best then k else best) xs b \<in> insert b (set xs)"
  by (induction xs arbitrary: b) (auto split: if_splits)

lemma cutPosition_range: "2 \<le> length s \<Longrightarrow> 1 \<le> cutPosition s \<and> cutPosition s < length s"
proof -
  assume l: "2 \<le> length s"
  have "cutPosition s \<in> insert 1 (set [2 ..< length s])"
    unfolding cutPosition_def by (rule fold_pick_mem)
  then show ?thesis using l by auto
qed

lemma partition_cb_contract: "partition_contract partition_cb"
  unfolding partition_contract_def
proof (intro allI impI)
  fix b :: colorBucket
  assume l: "3 \<le> length b"
  define s where "s = sort_key (chan (widest b)) b"
  define k where "k = cutPosition s"
  have ls: "length s = length b" by (simp add: s_def)
  have k: "1 \<le> k" "k < length s" using cutPosition_range[of s] l ls by (simp_all add: k_def)
  have pb: "partition_cb b = (take k s, drop k s)"
    by (simp add: partition_cb_def Let_def s_def k_def)
  have "mset (take k s) + mset (drop k s) = mset s"
    by (metis append_take_drop_id mset_append)
  moreover have "mset s = mset b" by (simp add: s_def)
  moreover have "take k s \<noteq> []" "drop k s \<noteq> []" using k by auto
  ultimately show "fst (partition_cb b) \<noteq> [] \<and> snd (partition_cb b) \<noteq> [] \<and>
     mset (fst (partition_cb b)) + mset (snd (partition_cb b)) = mset b"
    by (simp add: pb)
qed

theorem bucketize_count_and_nonempty_witness:
  "partition_contract partition_cb \<and>
   (\<exists>bs. bucketize partition_cb
      [colorPriority 1 (RGBA 255 0 0 255), colorPriority 5 (RGBA 0 0 0 255),
       colorPriority 2 (RGBA 0 255 0 255), colorPriority 2 (RGBA 0 0 255 255)] 3 = Some (Inr bs) \<and>
      int (length bs) \<le> 3 \<and>
      min 3 (int (card (rgba ` set [colorPriority 1 (RGBA 255 0 0 255), colorPriority 5 (RGBA 0 0 0 255),
       colorPriority 2 (RGBA 0 255 0 255), colorPriority 2 (RGBA 0 0 255 255)]))) \<le> int (length bs) \<and>
      list_all (\<lambda>b. b \<noteq> []) bs)"
  using bucketize_count_and_nonempty[OF partition_cb_contract,
    of "[colorPriority 1 (RGBA 255 0 0 255), colorPriority 5 (RGBA 0 0 0 255),
       colorPriority 2 (RGBA 0 255 0 255), colorPriority 2 (RGBA 0 0 255 255)]" 3]
    partition_cb_contract
  by simp

theorem bucketize_conserves_weight_witness:
  "partition_contract partition_cb \<and>
   (\<exists>bs. bucketize partition_cb
      [colorPriority 1 (RGBA 255 0 0 255), colorPriority 5 (RGBA 0 0 0 255),
       colorPriority 2 (RGBA 0 255 0 255), colorPriority 2 (RGBA 0 0 255 255)] 3 = Some (Inr bs) \<and>
      mset (concat bs) = mset [colorPriority 1 (RGBA 255 0 0 255), colorPriority 5 (RGBA 0 0 0 255),
       colorPriority 2 (RGBA 0 255 0 255), colorPriority 2 (RGBA 0 0 255 255)] \<and>
      sum_list (map totalWeight bs) = 10)"
proof -
  have "totalWeight [colorPriority 1 (RGBA 255 0 0 255), colorPriority 5 (RGBA 0 0 0 255),
       colorPriority 2 (RGBA 0 255 0 255), colorPriority 2 (RGBA 0 0 255 255)] = 10"
    by (simp add: totalWeight_def)
  then show ?thesis
    using bucketize_conserves_weight[OF partition_cb_contract,
      of 3 "[colorPriority 1 (RGBA 255 0 0 255), colorPriority 5 (RGBA 0 0 0 255),
       colorPriority 2 (RGBA 0 255 0 255), colorPriority 2 (RGBA 0 0 255 255)]"]
      partition_cb_contract
    by simp
qed

section \<open>The scan as one loop over the scanned pixels\<close>

lemma forEach_append:
  "forEach body (xs @ ys) s =
     (case forEach body xs s of
        None \<Rightarrow> None
      | Some (Inl e) \<Rightarrow> Some (Inl e)
      | Some (Inr s') \<Rightarrow> forEach body ys s')"
  by (induction xs arbitrary: s) (auto split: option.splits sum.splits)

lemma forEach_concat_map:
  "forEach (\<lambda>a. forEach (g a) (f a)) xs s
     = forEach (\<lambda>(a, b). g a b) (concat (map (\<lambda>a. map (Pair a) (f a)) xs)) s"
proof (induction xs arbitrary: s)
  case Nil
  then show ?case by simp
next
  case (Cons a xs)
  have inner: "forEach (\<lambda>(a, b). g a b) (map (Pair a) ys) t = forEach (g a) ys t" for ys t
    by (induction ys arbitrary: t) (auto split: option.splits sum.splits)
  show ?case
    by (simp add: forEach_append inner Cons.IH split: option.splits sum.splits)
qed

lemma scanImages_flat:
  "scanImages bounds sz ms st
     = forEach (\<lambda>(m, y, x). scanPixel sz m y x) (scanned bounds ms) st"
proof -
  have rows: "forEach (\<lambda>y. forEach (\<lambda>x. scanPixel sz m y x) xs) ys t
      = forEach (\<lambda>(y, x). scanPixel sz m y x) (concat (map (\<lambda>y. map (Pair y) xs) ys)) t"
    for m xs ys t
    by (rule forEach_concat_map)
  have le: "concat (map (\<lambda>m. map (Pair m)
             (concat (map (\<lambda>y. map (Pair y) [X (RMin bounds) .. X (RMax bounds) - 1])
                          [Y (RMin bounds) .. Y (RMax bounds) - 1]))) ms) = scanned bounds ms"
    by (simp add: scanned_def map_concat comp_def)
  have "scanImages bounds sz ms st
      = forEach (\<lambda>(m, yx). (\<lambda>(y, x). scanPixel sz m y x) yx)
          (concat (map (\<lambda>m. map (Pair m)
             (concat (map (\<lambda>y. map (Pair y) [X (RMin bounds) .. X (RMax bounds) - 1])
                          [Y (RMin bounds) .. Y (RMax bounds) - 1]))) ms)) st"
    unfolding scanImages_def rows by (rule forEach_concat_map)
  then show ?thesis by (simp only: le)
qed

lemma forEach_rule:
  assumes run: "forEach body xs s0 = Some (Inr s')"
    and init: "P [] s0"
    and step: "\<And>pre x rest s s1. xs = pre @ x # rest \<Longrightarrow> P pre s \<Longrightarrow> body x s = Some (Inr s1)
                 \<Longrightarrow> P (pre @ [x]) s1"
  shows "P xs s'"
proof -
  have "forEach body ys s = Some (Inr s') \<Longrightarrow> xs = pre @ ys \<Longrightarrow> P pre s \<Longrightarrow> P xs s'" for ys pre s
  proof (induction ys arbitrary: pre s)
    case Nil
    then show ?case by simp
  next
    case (Cons y ys)
    from Cons.prems(1) obtain s1 where b: "body y s = Some (Inr s1)"
      and r: "forEach body ys s1 = Some (Inr s')"
      by (auto split: option.splits sum.splits)
    have "P (pre @ [y]) s1" using step[OF Cons.prems(2) Cons.prems(3) b] .
    then show ?case using Cons.IH[OF r, of "pre @ [y]"] Cons.prems(2) by simp
  qed
  from this[OF run, of "[]"] init show ?thesis by simp
qed

lemma probe_stops_aux:
  assumes "probe tbl sz c index i = Some r"
  shows "\<forall>k. r = Inr k \<longrightarrow> stopSlot tbl c k"
proof (rule probe.raw_induct[where P = "\<lambda>tbl sz c index i r. \<forall>k. r = Inr k \<longrightarrow> stopSlot tbl c k"])
  show "probe tbl sz c index i = Some r" by (rule assms)
next
  fix probe' tbl sz c index i r
  assume IH: "\<And>tbl sz c index i r. probe' tbl sz c index i = Some r
                 \<Longrightarrow> \<forall>k. r = Inr k \<longrightarrow> stopSlot tbl c k"
    and eq: "(if sz = 0 then Some (Inl DivideByZero)
      else if index smod sz < 0 \<or> int (length tbl) \<le> index smod sz
        then Some (Inl IndexOutOfRange)
      else if p (tbl ! nat (index smod sz)) = 0 \<or> rgba (tbl ! nat (index smod sz)) = c
        then Some (Inr (nat (index smod sz)))
      else probe' tbl sz c (wrap64 (index + wrap64 (1 + i))) (wrap64 (i + 1))) = Some r"
  show "\<forall>k. r = Inr k \<longrightarrow> stopSlot tbl c k"
    using eq IH by (auto simp: stopSlot_def split: if_splits)
qed

lemma probe_stops: "probe tbl sz c index i = Some (Inr k) \<Longrightarrow> stopSlot tbl c k"
  using probe_stops_aux by blast

lemma probe_full_never_returns:
  assumes "\<And>k. k < length tbl \<Longrightarrow> p (tbl ! k) \<noteq> 0 \<and> rgba (tbl ! k) \<noteq> c"
  shows "probe tbl sz c index i \<noteq> Some (Inr k)"
  using probe_stops[of tbl sz c index i k] assms by (auto simp: stopSlot_def)

section \<open>The collision loop on a full table\<close>

lemma map_result_InrD:
  "map_option (map_sum id f) r = Some (Inr v) \<Longrightarrow> \<exists>u. r = Some (Inr u) \<and> f u = v"
  by (cases r) (auto simp: map_sum_def split: sum.splits)

lemma scanImages_append:
  "scanImages bounds sz (xs @ ys) st =
     (case scanImages bounds sz xs st of
        None \<Rightarrow> None
      | Some (Inl e) \<Rightarrow> Some (Inl e)
      | Some (Inr st') \<Rightarrow> scanImages bounds sz ys st')"
  unfolding scanImages_def by (rule forEach_append)

lemma two_frames_fill_table:
  "map_option (map_sum id (\<lambda>(q', t). (case Weighting q' of None \<Rightarrow> True | Some w \<Rightarrow> False, t)))
     (scanImages (Rectangle (Point 0 0) (Point 1 1)) 2
        [solid 1 1 (RGBA 0 0 0 255), solid 1 1 (RGBA 0 0 1 255)]
        (\<lparr> Aggregation = Mode, Weighting = None, ReserveTransparent = False \<rparr>, [zeroCP, zeroCP]))
   = Some (Inr (True, [colorPriority 1 (RGBA 0 0 0 255), colorPriority 1 (RGBA 0 0 1 255)]))"
  by code_simp

lemma third_frame_never_placed:
  "probe [colorPriority 1 (RGBA 0 0 0 255), colorPriority 1 (RGBA 0 0 1 255)] 2 (RGBA 0 0 2 255) index i
     \<noteq> Some (Inr k)"
  by (rule probe_full_never_returns) (auto simp: less_Suc_eq numeral_2_eq_2)

text \<open>
  C6. Quantization is claimed to terminate for every finite image list: the collision loop
  is claimed to reach an empty slot or a slot with the identical color. The sparse table
  has twice the pixel count of the first frame, but the samples of every frame go into it.
  With three 1x1 frames of three colors the table has two slots, both taken after the
  second frame; for the pixel of the third frame no slot is empty and none holds its color,
  so the loop never breaks and \<^verbatim>\<open>buildBucketMultiple\<close> does not return.
\<close>

theorem buildBucketMultiple_three_frames_never_returns:
  "\<not> returns (buildBucketMultiple YCbCrToRGB
        \<lparr> Aggregation = Mode, Weighting = None, ReserveTransparent = False \<rparr>
        threeFrames emptyPool None)"
proof -
  let ?q = "\<lparr> Aggregation = Mode, Weighting = None, ReserveTransparent = False \<rparr>"
  let ?B = "Rectangle (Point 0 0) (Point 1 1)"
  let ?T = "[colorPriority 1 (RGBA 0 0 0 255), colorPriority 1 (RGBA 0 0 1 255)]"
  have gb: "getBucket emptyPool None 2 = Inr (Slice [zeroCP, zeroCP] 2, \<lparr>Pool = [], maxCap = 2\<rparr>)"
    by (simp add: getBucket_def emptyPool_def Pool_Get_def make_slice_def numeral_2_eq_2)
  obtain q' where two: "scanImages ?B 2 [solid 1 1 (RGBA 0 0 0 255), solid 1 1 (RGBA 0 0 1 255)] (?q, [zeroCP, zeroCP])
      = Some (Inr (q', ?T))" and w: "Weighting q' = None"
  proof -
    from map_result_InrD[OF two_frames_fill_table] obtain u where
      u: "scanImages ?B 2 [solid 1 1 (RGBA 0 0 0 255), solid 1 1 (RGBA 0 0 1 255)] (?q, [zeroCP, zeroCP])
            = Some (Inr u)"
      and fu: "(case u of (q', t) \<Rightarrow> (case Weighting q' of None \<Rightarrow> True | Some w \<Rightarrow> False, t)) = (True, ?T)"
      by blast
    obtain q' t where "u = (q', t)" by (cases u)
    with u fu that show ?thesis by (auto split: option.splits)
  qed
  have third: "\<not> returns (scanPixel 2 (solid 1 1 (RGBA 0 0 2 255)) 0 0 (q', ?T))"
    using third_frame_never_placed w
    by (auto simp: returns_def scanPixel_def solid_def rgbaImage_def priorityAt_def Let_def
          split: option.splits sum.splits)
  have all: "scanImages ?B 2 threeFrames (?q, [zeroCP, zeroCP])
      = (case scanPixel 2 (solid 1 1 (RGBA 0 0 2 255)) 0 0 (q', ?T) of
           None \<Rightarrow> None | Some (Inl e) \<Rightarrow> Some (Inl e) | Some (Inr s) \<Rightarrow> Some (Inr s))"
  proof -
    have "scanImages ?B 2 threeFrames (?q, [zeroCP, zeroCP])
        = scanImages ?B 2 ([solid 1 1 (RGBA 0 0 0 255), solid 1 1 (RGBA 0 0 1 255)]
                             @ [solid 1 1 (RGBA 0 0 2 255)]) (?q, [zeroCP, zeroCP])"
      by (simp add: threeFrames_def)
    also have "\<dots> = scanImages ?B 2 [solid 1 1 (RGBA 0 0 2 255)] (q', ?T)"
      by (simp only: scanImages_append two option.case sum.case)
    finally have "scanImages ?B 2 threeFrames (?q, [zeroCP, zeroCP])
        = scanImages ?B 2 [solid 1 1 (RGBA 0 0 2 255)] (q', ?T)" .
    then have "scanImages ?B 2 threeFrames (?q, [zeroCP, zeroCP])
        = forEach (\<lambda>m. forEach (\<lambda>y. forEach (\<lambda>x. scanPixel 2 m y x) [0 .. 0]) [0 .. 0])
            [solid 1 1 (RGBA 0 0 2 255)] (q', ?T)"
      by (simp add: scanImages_def)
    then show ?thesis by (simp split: option.splits sum.splits)
  qed
  have "\<not> returns (scanImages ?B 2 threeFrames (?q, [zeroCP, zeroCP]))"
    using third unfolding all by (simp add: returns_def split: option.splits sum.splits)
  moreover have "Bounds (threeFrames ! 0) = ?B" by (simp add: threeFrames_def solid_def rgbaImage_def)
  moreover have "length threeFrames = 3" by (simp add: threeFrames_def)
  ultimately show ?thesis
    by (simp add: buildBucketMultiple_def gb returns_def split: option.splits sum.splits)
qed

section \<open>One scanned pixel; the receiver; compaction\<close>

lemma scanPixel_transparent:
  "A (colorAt m x y) = 0 \<Longrightarrow>
     scanPixel sz m y x (q, tbl) = Some (Inr (q\<lparr>ReserveTransparent := True\<rparr>, tbl))"
  by (simp add: scanPixel_def Let_def)

lemma scanPixel_skipped:
  "A (colorAt m x y) \<noteq> 0 \<Longrightarrow> priorityAt q m x y = 0 \<Longrightarrow>
     scanPixel sz m y x (q, tbl) = Some (Inr (q, tbl))"
  by (simp add: scanPixel_def Let_def)

lemma scanPixel_stored:
  "A (colorAt m x y) \<noteq> 0 \<Longrightarrow> priorityAt q m x y \<noteq> 0 \<Longrightarrow>
     scanPixel sz m y x (q, tbl) =
       (case probe tbl sz (colorAt m x y) (hashIndex (colorAt m x y)) 1 of
          None \<Rightarrow> None
        | Some (Inl e) \<Rightarrow> Some (Inl e)
        | Some (Inr k) \<Rightarrow>
            Some (Inr (q, tbl[k := colorPriority (p (tbl ! k) + priorityAt q m x y) (colorAt m x y)])))"
  by (simp add: scanPixel_def Let_def)

lemma scanPixel_cases:
  assumes "scanPixel sz m y x (q, tbl) = Some (Inr (q1, tbl1))"
  obtains (transparent) "A (colorAt m x y) = 0" "q1 = q\<lparr>ReserveTransparent := True\<rparr>" "tbl1 = tbl"
  | (skipped) "A (colorAt m x y) \<noteq> 0" "priorityAt q m x y = 0" "q1 = q" "tbl1 = tbl"
  | (stored) k where "A (colorAt m x y) \<noteq> 0" "priorityAt q m x y \<noteq> 0" "q1 = q"
      "probe tbl sz (colorAt m x y) (hashIndex (colorAt m x y)) 1 = Some (Inr k)"
      "tbl1 = tbl[k := colorPriority (p (tbl ! k) + priorityAt q m x y) (colorAt m x y)]"
proof (cases "A (colorAt m x y) = 0")
  case True
  have "(q\<lparr>ReserveTransparent := True\<rparr>, tbl) = (q1, tbl1)"
    using assms unfolding scanPixel_transparent[OF True] by (simp only: option.inject sum.inject)
  then have "q1 = q\<lparr>ReserveTransparent := True\<rparr>" "tbl1 = tbl"
    by (metis prod.inject)+
  then show ?thesis using True transparent by blast
next
  case False
  show ?thesis
  proof (cases "priorityAt q m x y = 0")
    case True
    have "(q, tbl) = (q1, tbl1)"
      using assms unfolding scanPixel_skipped[OF False True] by (simp only: option.inject sum.inject)
    then have "q1 = q" "tbl1 = tbl"
      by (metis prod.inject)+
    then show ?thesis using False True skipped by blast
  next
    case nz: False
    have "(case probe tbl sz (colorAt m x y) (hashIndex (colorAt m x y)) 1 of
        None \<Rightarrow> (None :: (panic + scanState) option)
      | Some (Inl e) \<Rightarrow> Some (Inl e)
      | Some (Inr k) \<Rightarrow>
          Some (Inr (q, tbl[k := colorPriority (p (tbl ! k) + priorityAt q m x y) (colorAt m x y)])))
      = Some (Inr (q1, tbl1))"
      using assms unfolding scanPixel_stored[OF False nz] .
    then obtain k where "probe tbl sz (colorAt m x y) (hashIndex (colorAt m x y)) 1 = Some (Inr k)"
      "q1 = q" "tbl1 = tbl[k := colorPriority (p (tbl ! k) + priorityAt q m x y) (colorAt m x y)]"
      by (auto split: option.splits sum.splits)
    then show ?thesis using False nz stored by blast
  qed
qed

lemma scan_receiver:
  assumes "forEach (\<lambda>(m, y, x). scanPixel sz m y x) xs (q, tbl) = Some (Inr (q', tbl'))"
  shows "Aggregation q' = Aggregation q \<and> Weighting q' = Weighting q \<and>
         ReserveTransparent q' = (ReserveTransparent q \<or> list_ex (\<lambda>px. \<not> opaque px) xs) \<and>
         length tbl' = length tbl"
proof -
  let ?P = "\<lambda>pre st. Aggregation (fst st) = Aggregation q \<and> Weighting (fst st) = Weighting q \<and>
         ReserveTransparent (fst st) = (ReserveTransparent q \<or> list_ex (\<lambda>px. \<not> opaque px) pre) \<and>
         length (snd st) = length tbl"
  have "?P xs (q', tbl')"
  proof (rule forEach_rule[OF assms, where P = ?P])
    show "?P [] (q, tbl)" by simp
  next
    fix pre px rest s s1
    assume P: "?P pre s" and b: "(case px of (m, y, x) \<Rightarrow> scanPixel sz m y x) s = Some (Inr s1)"
    obtain m y x where px: "px = (m, y, x)" by (cases px)
    obtain q0 t0 where s: "s = (q0, t0)" by (cases s)
    obtain q1 t1 where s1: "s1 = (q1, t1)" by (cases s1)
    from b have sp: "scanPixel sz m y x (q0, t0) = Some (Inr (q1, t1))" by (simp add: px s s1)
    from sp show "?P (pre @ [px]) s1"
    proof (cases rule: scanPixel_cases)
      case transparent
      then show ?thesis using P by (simp add: px s s1 opaque_def sampleOf_def)
    next
      case skipped
      then show ?thesis using P by (simp add: px s s1 opaque_def sampleOf_def)
    next
      case (stored k)
      then show ?thesis using P by (simp add: px s s1 opaque_def sampleOf_def)
    qed
  qed
  then show ?thesis by simp
qed

lemma compact_fold:
  assumes "n \<le> length arr"
  shows "\<exists>a. fold (\<lambda>i (a, j). if p (a ! i) \<noteq> 0 then (a[j := conv (a ! i)], Suc j) else (a, j))
              [0 ..< n] (arr, 0) = (a, length (filter (\<lambda>e. p e \<noteq> 0) (take n arr)))
          \<and> take (length (filter (\<lambda>e. p e \<noteq> 0) (take n arr))) a
              = map conv (filter (\<lambda>e. p e \<noteq> 0) (take n arr))
          \<and> drop n a = drop n arr \<and> length a = length arr"
  using assms
proof (induction n)
  case 0
  then show ?case by simp
next
  case (Suc n)
  let ?nz = "\<lambda>e. p e \<noteq> 0"
  let ?step = "\<lambda>i (a, j). if p (a ! i) \<noteq> 0 then (a[j := conv (a ! i)], Suc j) else (a, j)"
  let ?j = "length (filter ?nz (take n arr))"
  from Suc obtain a where
    f: "fold ?step [0 ..< n] (arr, 0) = (a, ?j)"
    and t: "take ?j a = map conv (filter ?nz (take n arr))"
    and d: "drop n a = drop n arr" and l: "length a = length arr" by auto
  have n: "n < length arr" using Suc.prems by simp
  have an: "a ! n = arr ! n"
    using d n l by (metis nth_via_drop Cons_nth_drop_Suc)
  have jn: "?j \<le> n" by (rule order_trans[OF length_filter_le]) simp
  have tk: "take (Suc n) arr = take n arr @ [arr ! n]" using n by (simp add: take_Suc_conv_app_nth)
  have fs: "fold ?step [0 ..< Suc n] (arr, 0) = ?step n (a, ?j)" by (simp add: f)
  show ?case
  proof (cases "p (arr ! n) \<noteq> 0")
    case True
    let ?a' = "a[?j := conv (arr ! n)]"
    have "fold ?step [0 ..< Suc n] (arr, 0) = (?a', Suc ?j)" using fs an True by simp
    moreover have "length (filter ?nz (take (Suc n) arr)) = Suc ?j" using tk True by simp
    moreover have "take (Suc ?j) ?a' = map conv (filter ?nz (take (Suc n) arr))"
    proof -
      have "?j < length ?a'" using jn n l by simp
      then have "take (Suc ?j) ?a' = take ?j ?a' @ [?a' ! ?j]" by (rule take_Suc_conv_app_nth)
      also have "\<dots> = take ?j a @ [conv (arr ! n)]" using jn n l by simp
      also have "\<dots> = map conv (filter ?nz (take (Suc n) arr))" using t tk True by simp
      finally show ?thesis .
    qed
    moreover have "drop (Suc n) ?a' = drop (Suc n) arr"
    proof -
      have "drop (Suc n) ?a' = drop (Suc n) a" using jn by (simp add: drop_update_cancel)
      also have "\<dots> = drop (Suc n) arr" using d by (metis drop_drop plus_1_eq_Suc)
      finally show ?thesis .
    qed
    moreover have "length ?a' = length arr" using l by simp
    ultimately show ?thesis by (metis (no_types, lifting))
  next
    case False
    have "fold ?step [0 ..< Suc n] (arr, 0) = (a, ?j)" using fs an False by simp
    moreover have "filter ?nz (take (Suc n) arr) = filter ?nz (take n arr)" using tk False by simp
    moreover have "drop (Suc n) a = drop (Suc n) arr" using d by (metis drop_drop plus_1_eq_Suc)
    ultimately show ?thesis using t l by (metis (no_types, lifting))
  qed
qed

lemma compact_eq: "compact conv arr = map conv (filter (\<lambda>e. p e \<noteq> 0) arr)"
proof -
  from compact_fold[of "length arr" arr conv] obtain a where
    "fold (\<lambda>i (a, j). if p (a ! i) \<noteq> 0 then (a[j := conv (a ! i)], Suc j) else (a, j))
              [0 ..< length arr] (arr, 0) = (a, length (filter (\<lambda>e. p e \<noteq> 0) arr))"
    "take (length (filter (\<lambda>e. p e \<noteq> 0) arr)) a = map conv (filter (\<lambda>e. p e \<noteq> 0) arr)"
    by auto
  then show ?thesis by (simp add: compact_def)
qed

lemma buildBucketMultiple_cases:
  assumes "buildBucketMultiple ycc q ms bp choice = Some (Inr (q', bucket, bp'))"
  obtains (empty) "ms = []" "q' = q" "bucket = Slice [] 0" "bp' = bp"
  | (scan) sparse tbl where "ms \<noteq> []"
      "getBucket bp choice ((X (RMax (Bounds (ms ! 0))) - X (RMin (Bounds (ms ! 0))))
          * (Y (RMax (Bounds (ms ! 0))) - Y (RMin (Bounds (ms ! 0)))) * 2) = Inr (sparse, bp')"
      "forEach (\<lambda>(m, y, x). scanPixel ((X (RMax (Bounds (ms ! 0))) - X (RMin (Bounds (ms ! 0))))
          * (Y (RMax (Bounds (ms ! 0))) - Y (RMin (Bounds (ms ! 0)))) * 2) m y x)
         (scanned (Bounds (ms ! 0)) ms) (q, elems sparse) = Some (Inr (q', tbl))"
      "bucket = Slice (map (if isYCbCr (ms ! 0) then convYCbCr ycc else id) (filter (\<lambda>e. p e \<noteq> 0) tbl))
                  (cap sparse)"
proof (cases "ms = []")
  case True
  then have "(q, Slice [] 0, bp) = (q', bucket, bp')"
    using assms by (simp add: buildBucketMultiple_def)
  then have "q' = q" "bucket = Slice [] 0" "bp' = bp" by (metis prod.inject)+
  then show ?thesis using True empty by blast
next
  case False
  let ?sz = "(X (RMax (Bounds (ms ! 0))) - X (RMin (Bounds (ms ! 0))))
          * (Y (RMax (Bounds (ms ! 0))) - Y (RMin (Bounds (ms ! 0)))) * 2"
  let ?scan = "\<lambda>t. forEach (\<lambda>(m, y, x). scanPixel ?sz m y x) (scanned (Bounds (ms ! 0)) ms) (q, t)"
  let ?conv = "if isYCbCr (ms ! 0) then convYCbCr ycc else id"
  have l: "\<not> length ms < 1" using False by (cases ms) auto
  have unf: "buildBucketMultiple ycc q ms bp choice =
      (case getBucket bp choice ?sz of
         Inl e \<Rightarrow> Some (Inl e)
       | Inr (sparseBucket, bp1) \<Rightarrow>
           (case ?scan (elems sparseBucket) of
              None \<Rightarrow> None
            | Some (Inl e) \<Rightarrow> Some (Inl e)
            | Some (Inr (q1, tbl)) \<Rightarrow>
                Some (Inr (q1, Slice (map ?conv (filter (\<lambda>e. p e \<noteq> 0) tbl)) (cap sparseBucket), bp1))))"
    unfolding buildBucketMultiple_def Let_def scanImages_flat compact_eq
    by (simp only: l if_False)
  obtain sparse bp1 where gb: "getBucket bp choice ?sz = Inr (sparse, bp1)"
    using assms unfolding unf by (cases "getBucket bp choice ?sz") auto
  obtain q1 tbl where sc: "?scan (elems sparse) = Some (Inr (q1, tbl))"
    using assms unfolding unf gb by (auto split: option.splits sum.splits)
  have "(q1, Slice (map ?conv (filter (\<lambda>e. p e \<noteq> 0) tbl)) (cap sparse), bp1) = (q', bucket, bp')"
    using assms sc unfolding unf gb by (simp split: if_splits)
  then have "q1 = q'" "bucket = Slice (map ?conv (filter (\<lambda>e. p e \<noteq> 0) tbl)) (cap sparse)" "bp1 = bp'"
    by (metis prod.inject)+
  then show ?thesis using scan[OF False] gb sc by blast
qed

section \<open>The receiver after QuantizeMultiple\<close>

lemma QuantizeMultiple_cases:
  assumes "QuantizeMultiple part mean ycc q pal capp ms bp choice = Some (Inr (q', pal', bp''))"
  obtains bucket bp' where
    "buildBucketMultiple ycc q ms bp choice = Some (Inr (q', bucket, bp'))"
    "quantizeSlice part mean q' pal capp (elems bucket) = Some (Inr pal')"
    "bp'' = bp'\<lparr>Pool := Pool_Put (Pool bp') (ColorBucketPointer bucket)\<rparr>"
proof -
  obtain q1 bucket bp' where bb: "buildBucketMultiple ycc q ms bp choice = Some (Inr (q1, bucket, bp'))"
    using assms unfolding QuantizeMultiple_def
    by (cases "buildBucketMultiple ycc q ms bp choice") (auto split: sum.splits)
  obtain pal1 where qs: "quantizeSlice part mean q1 pal capp (elems bucket) = Some (Inr pal1)"
    using assms unfolding QuantizeMultiple_def bb
    by (cases "quantizeSlice part mean q1 pal capp (elems bucket)") (auto split: sum.splits)
  have "(q1, pal1, bp'\<lparr>Pool := Pool_Put (Pool bp') (ColorBucketPointer bucket)\<rparr>) = (q', pal', bp'')"
    using assms qs unfolding QuantizeMultiple_def bb by simp
  then have "q1 = q'" "pal1 = pal'" "bp'' = bp'\<lparr>Pool := Pool_Put (Pool bp') (ColorBucketPointer bucket)\<rparr>"
    by (metis prod.inject)+
  then show ?thesis using that bb qs by blast
qed

lemma buildBucketMultiple_receiver:
  assumes "buildBucketMultiple ycc q ms bp choice = Some (Inr (q', bucket, bp'))"
  shows "ReserveTransparent q' =
           (ReserveTransparent q \<or> list_ex (\<lambda>px. \<not> opaque px) (scanned (Bounds (ms ! 0)) ms))
         \<and> Aggregation q' = Aggregation q \<and> Weighting q' = Weighting q"
  using assms
proof (cases rule: buildBucketMultiple_cases)
  case empty
  then show ?thesis by (simp add: scanned_def)
next
  case (scan sparse tbl)
  from scan_receiver[OF scan(3)] show ?thesis by simp
qed

text \<open>
  C10. Whenever \<^verbatim>\<open>QuantizeMultiple\<close> returns, the receiver's \<^verbatim>\<open>ReserveTransparent\<close> is
  true exactly if it was true before the call or some scanned pixel has alpha 0; the fields
  \<^verbatim>\<open>Aggregation\<close> and \<^verbatim>\<open>Weighting\<close> are as before.
\<close>

theorem QuantizeMultiple_receiver:
  assumes "QuantizeMultiple part mean ycc q pal capp ms bp choice = Some (Inr (q', pal', bp'))"
  shows "ReserveTransparent q' =
           (ReserveTransparent q \<or> list_ex (\<lambda>px. A (sampleOf px) = 0) (scanned (Bounds (ms ! 0)) ms))
         \<and> Aggregation q' = Aggregation q \<and> Weighting q' = Weighting q"
  using assms
proof (cases rule: QuantizeMultiple_cases)
  case (1 bucket bp1)
  from buildBucketMultiple_receiver[OF 1(1)] show ?thesis by (simp add: opaque_def)
qed

lemma twoPixels_quantized:
  "map_option (map_sum id (\<lambda>(q', pal', bp'). (ReserveTransparent q', pal')))
     (QuantizeMultiple partition_cb mean_cb YCbCrToRGB
        \<lparr> Aggregation = Mode, Weighting = None, ReserveTransparent = False \<rparr>
        [] 256 [twoPixels] emptyPool None)
   = Some (Inr (True, [RGBA 255 0 0 255]))"
  by code_simp

theorem QuantizeMultiple_receiver_witness:
  "\<exists>q' pal' bp'.
     QuantizeMultiple partition_cb mean_cb YCbCrToRGB
        \<lparr> Aggregation = Mode, Weighting = None, ReserveTransparent = False \<rparr>
        [] 256 [twoPixels] emptyPool None = Some (Inr (q', pal', bp'))
     \<and> ReserveTransparent q' \<and> Aggregation q' = Mode \<and> Weighting q' = None"
proof -
  from map_result_InrD[OF twoPixels_quantized] obtain u where
    u: "QuantizeMultiple partition_cb mean_cb YCbCrToRGB
        \<lparr> Aggregation = Mode, Weighting = None, ReserveTransparent = False \<rparr>
        [] 256 [twoPixels] emptyPool None = Some (Inr u)" by blast
  obtain q' pal' bp' where "u = (q', pal', bp')" by (cases u)
  with u have r: "QuantizeMultiple partition_cb mean_cb YCbCrToRGB
        \<lparr> Aggregation = Mode, Weighting = None, ReserveTransparent = False \<rparr>
        [] 256 [twoPixels] emptyPool None = Some (Inr (q', pal', bp'))" by simp
  have ex: "list_ex (\<lambda>px. A (sampleOf px) = 0) (scanned (Bounds ([twoPixels] ! 0)) [twoPixels])"
    by code_simp
  from QuantizeMultiple_receiver[OF r] ex r show ?thesis by simp
qed

section \<open>Weight through the scan\<close>

lemma getBucket_zeroed:
  assumes "getBucket bp choice c = Inr (s, bp')"
  shows "elems s = replicate (nat c) zeroCP \<and> 0 \<le> c \<and> c \<le> maxCap bp'"
  using assms unfolding getBucket_def Let_def make_slice_def
  by (auto split: prod.splits option.splits iface.splits if_splits simp: map_sum_def split: sum.splits)

lemma priorityAt_cong: "Weighting q1 = Weighting q2 \<Longrightarrow> priorityAt q1 m x y = priorityAt q2 m x y"
  by (simp add: priorityAt_def)

lemma totalWeight_update:
  assumes "k < length t"
  shows "totalWeight (t[k := e]) = totalWeight t + unat (p e) - unat (p (t ! k))"
proof -
  have "map (\<lambda>e. unat (p e)) (t[k := e]) = (map (\<lambda>e. unat (p e)) t)[k := unat (p e)]"
    by (rule map_update)
  then show ?thesis using assms by (simp add: totalWeight_def sum_list_update)
qed

lemma slot_le_totalWeight: "k < length t \<Longrightarrow> unat (p (t ! k)) \<le> totalWeight t"
  unfolding totalWeight_def using elem_le_sum_list[of k "map (\<lambda>e. unat (p e)) t"] by simp

lemma totalWeight_store:
  assumes k: "k < length t" and b: "totalWeight t + unat w < 2 ^ 32"
  shows "totalWeight (t[k := colorPriority (p (t ! k) + w) c]) = totalWeight t + unat w"
proof -
  have le: "unat (p (t ! k)) \<le> totalWeight t" using k by (rule slot_le_totalWeight)
  then have "unat (p (t ! k)) + unat w < 2 ^ LENGTH(32)" using b by simp
  then have "unat (p (t ! k) + w) = unat (p (t ! k)) + unat w" by (rule unat_add_lem[THEN iffD1])
  then show ?thesis using le by (simp add: totalWeight_update[OF k])
qed

lemma scan_weight:
  assumes run: "forEach (\<lambda>(m, y, x). scanPixel sz m y x) xs (q, tbl) = Some (Inr (q', tbl'))"
    and bound: "totalWeight tbl + sum_list (map (weightOf q) xs) < 2 ^ 32"
  shows "totalWeight tbl' = totalWeight tbl + sum_list (map (weightOf q) xs)"
proof -
  let ?P = "\<lambda>pre st. Weighting (fst st) = Weighting q \<and>
              totalWeight (snd st) = totalWeight tbl + sum_list (map (weightOf q) pre)"
  have "?P xs (q', tbl')"
  proof (rule forEach_rule[OF run, where P = ?P])
    show "?P [] (q, tbl)" by simp
  next
    fix pre px rest s s1
    assume xs: "xs = pre @ px # rest" and P: "?P pre s"
      and b: "(case px of (m, y, x) \<Rightarrow> scanPixel sz m y x) s = Some (Inr s1)"
    obtain m y x where px: "px = (m, y, x)" by (cases px)
    obtain q0 t0 where s: "s = (q0, t0)" by (cases s)
    obtain q1 t1 where s1: "s1 = (q1, t1)" by (cases s1)
    have W: "Weighting q0 = Weighting q" and T: "totalWeight t0 = totalWeight tbl + sum_list (map (weightOf q) pre)"
      using P by (simp_all add: s)
    have pr: "priorityAt q0 m x y = priorityAt q m x y" using W by (rule priorityAt_cong)
    have bd: "totalWeight t0 + weightOf q px < 2 ^ 32" using bound T by (simp add: xs)
    from b have sp: "scanPixel sz m y x (q0, t0) = Some (Inr (q1, t1))" by (simp add: px s s1)
    from sp show "?P (pre @ [px]) s1"
    proof (cases rule: scanPixel_cases)
      case transparent
      then show ?thesis using W T by (simp add: px s1 weightOf_def opaque_def sampleOf_def)
    next
      case skipped
      then show ?thesis using W T pr by (simp add: px s1 weightOf_def opaque_def sampleOf_def)
    next
      case (stored k)
      have k: "k < length t0" using probe_stops[OF stored(4)] by (simp add: stopSlot_def)
      have wo: "weightOf q px = unat (priorityAt q0 m x y)"
        using stored(1) pr by (simp add: px weightOf_def opaque_def sampleOf_def)
      have "totalWeight t1 = totalWeight t0 + unat (priorityAt q0 m x y)"
        unfolding stored(5) using bd wo by (intro totalWeight_store[OF k]) simp
      then show ?thesis using W T wo stored(3) by (simp add: s1)
    qed
  qed
  then show ?thesis by simp
qed

lemma totalWeight_filter: "totalWeight (filter (\<lambda>e. p e \<noteq> 0) t) = totalWeight t"
  by (induction t) (simp_all add: totalWeight_def)

lemma totalWeight_map: "(\<And>e. p (f e) = p e) \<Longrightarrow> totalWeight (map f t) = totalWeight t"
  by (simp add: totalWeight_def comp_def)

lemma p_convYCbCr: "p (convYCbCr ycc e) = p e"
  by (simp add: convYCbCr_def split: prod.splits)

lemma totalWeight_zero: "totalWeight (replicate n zeroCP) = 0"
  by (simp add: totalWeight_def zeroCP_def)

lemma default_weight: "Weighting q = None \<Longrightarrow> sum_list (map (weightOf q) xs) = length (filter opaque xs)"
  by (induction xs) (auto simp: weightOf_def priorityAt_def)

lemma buildBucketMultiple_weight:
  assumes run: "buildBucketMultiple ycc q ms bp choice = Some (Inr (q', bucket, bp'))"
    and bound: "sum_list (map (weightOf q) (scanned (Bounds (ms ! 0)) ms)) < 2 ^ 32"
  shows "totalWeight (elems bucket) = sum_list (map (weightOf q) (scanned (Bounds (ms ! 0)) ms))"
  using run
proof (cases rule: buildBucketMultiple_cases)
  case empty
  then show ?thesis by (simp add: scanned_def totalWeight_def)
next
  case (scan sparse tbl)
  have z: "totalWeight (elems sparse) = 0"
    using getBucket_zeroed[OF scan(2)] by (simp add: totalWeight_zero)
  have "totalWeight tbl = totalWeight (elems sparse) + sum_list (map (weightOf q) (scanned (Bounds (ms ! 0)) ms))"
    using bound z by (intro scan_weight[OF scan(3)]) simp
  moreover have "totalWeight (elems bucket) = totalWeight tbl"
    unfolding scan(4) by (simp add: totalWeight_map p_convYCbCr totalWeight_filter)
  ultimately show ?thesis using z by simp
qed

text \<open>
  C5, as amended: under the default weighting, and when fewer than \<open>2^32\<close> opaque pixels are
  scanned, every run of \<^verbatim>\<open>buildBucketMultiple\<close> that returns gives a dense bucket whose
  total weight is the number of scanned pixels of non-zero alpha. Pixels of alpha 0 add
  no weight.
\<close>

theorem buildBucketMultiple_total_weight:
  assumes "buildBucketMultiple ycc q ms bp choice = Some (Inr (q', bucket, bp'))"
    and "Weighting q = None"
    and "length (filter opaque (scanned (Bounds (ms ! 0)) ms)) < 2 ^ 32"
  shows "totalWeight (elems bucket) = length (filter opaque (scanned (Bounds (ms ! 0)) ms))"
  using buildBucketMultiple_weight[OF assms(1)] assms(3) by (simp add: default_weight[OF assms(2)])

section \<open>Weight wrap-around\<close>

lemma length_scanned:
  "length (scanned bounds ms)
     = length ms * (nat (Y (RMax bounds) - Y (RMin bounds)) * nat (X (RMax bounds) - X (RMin bounds)))"
proof -
  have row: "length (concat (map (\<lambda>y. map (\<lambda>x. (m, y, x)) xs) ys)) = length ys * length xs"
    for m :: image and xs ys :: "int list"
    by (induction ys) simp_all
  have "length (scanned bounds ms)
      = length ms * (length [Y (RMin bounds) .. Y (RMax bounds) - 1] * length [X (RMin bounds) .. X (RMax bounds) - 1])"
    unfolding scanned_def by (induction ms) (simp_all add: row)
  then show ?thesis by (simp add: algebra_simps)
qed

lemma sampleOf_scanned:
  assumes "px \<in> set (scanned bounds ms)"
  shows "\<exists>m\<in>set ms. \<exists>y x. px = (m, y, x)"
  using assms unfolding scanned_def by auto

lemma probe_first_slot:
  assumes "sz \<noteq> 0" "0 \<le> index smod sz" "index smod sz < int (length t)"
    "p (t ! nat (index smod sz)) = 0 \<or> rgba (t ! nat (index smod sz)) = c"
  shows "probe t sz c index i = Some (Inr (nat (index smod sz)))"
  using assms by (subst probe.simps) auto

lemma scan_one_color:
  assumes same: "\<And>px. px \<in> set xs \<Longrightarrow> sampleOf px = c"
    and op: "A c \<noteq> 0" and w: "Weighting q = None"
    and sz: "sz \<noteq> 0" "0 \<le> hashIndex c smod sz" "hashIndex c smod sz < int (length t)"
    and stop: "p (t ! nat (hashIndex c smod sz)) = 0 \<or> rgba (t ! nat (hashIndex c smod sz)) = c"
  shows "forEach (\<lambda>(m, y, x). scanPixel sz m y x) xs (q, t)
     = Some (Inr (q, if xs = [] then t
                     else t[nat (hashIndex c smod sz) :=
                            colorPriority (p (t ! nat (hashIndex c smod sz)) + of_nat (length xs)) c]))"
  using same sz(2,3) stop
proof (induction xs arbitrary: t)
  case Nil
  then show ?case by simp
next
  case (Cons px xs)
  let ?k = "nat (hashIndex c smod sz)"
  obtain m y x where px: "px = (m, y, x)" by (cases px)
  have c: "colorAt m x y = c" using Cons.prems(1)[of px] by (simp add: px sampleOf_def)
  have pr: "priorityAt q m x y = 1" using w by (simp add: priorityAt_def)
  have pb: "probe t sz c (hashIndex c) 1 = Some (Inr ?k)"
    using sz(1) Cons.prems(2,3,4) by (rule probe_first_slot)
  let ?t1 = "t[?k := colorPriority (p (t ! ?k) + 1) c]"
  have k: "?k < length t" using Cons.prems(2,3) by simp
  have one: "scanPixel sz m y x (q, t) = Some (Inr (q, ?t1))"
    using op by (simp add: scanPixel_stored c pr pb)
  have rest: "forEach (\<lambda>(m, y, x). scanPixel sz m y x) xs (q, ?t1)
     = Some (Inr (q, if xs = [] then ?t1
                     else ?t1[?k := colorPriority (p (?t1 ! ?k) + of_nat (length xs)) c]))"
    using Cons.prems k by (intro Cons.IH) simp_all
  have "(if xs = [] then ?t1 else ?t1[?k := colorPriority (p (?t1 ! ?k) + of_nat (length xs)) c])
      = t[?k := colorPriority (p (t ! ?k) + of_nat (length (px # xs))) c]"
    using k by (simp add: ac_simps)
  then show ?case using one rest by (simp add: px)
qed

lemma redFrames_scanned_length:
  "length (scanned (Bounds (redFrames ! 0)) redFrames) = 4294967296"
  by (simp add: length_scanned redFrames_def solid_def rgbaImage_def)

lemma redFrames_samples:
  assumes "px \<in> set (scanned (Bounds (redFrames ! 0)) redFrames)"
  shows "sampleOf px = RGBA 255 0 0 255"
proof -
  from sampleOf_scanned[OF assms] obtain m y x where "m \<in> set redFrames" "px = (m, y, x)" by blast
  then show ?thesis by (auto simp: redFrames_def sampleOf_def solid_def rgbaImage_def)
qed

lemma red_hash: "hashIndex (RGBA 255 0 0 255) smod 131072 = 65536"
  by (simp add: hashIndex_def smod_int_alt_def)

lemma filter_all_zero: "(\<And>e. e \<in> set t \<Longrightarrow> p e = 0) \<Longrightarrow> filter (\<lambda>e. p e \<noteq> 0) t = []"
  by (induction t) auto

text \<open>
  C5 as stated covers every image list. Weights are \<^verbatim>\<open>uint32\<close>: on the \<open>2^32\<close> opaque
  pixels of \<open>redFrames\<close> the weight of the one slot in use wraps to 0, compaction drops the
  slot, and the dense bucket is empty.
\<close>

theorem buildBucketMultiple_weight_wraps:
  "map_option (map_sum id (\<lambda>(q', bucket, bp'). elems bucket))
     (buildBucketMultiple YCbCrToRGB
        \<lparr> Aggregation = Mode, Weighting = None, ReserveTransparent = False \<rparr>
        redFrames emptyPool None) = Some (Inr [])
   \<and> length (filter opaque (scanned (Bounds (redFrames ! 0)) redFrames)) = 4294967296
   \<and> totalWeight [] \<noteq> 4294967296"
proof -
  let ?q = "\<lparr> Aggregation = Mode, Weighting = None, ReserveTransparent = False \<rparr>"
  let ?red = "RGBA 255 0 0 255"
  let ?xs = "scanned (Bounds (redFrames ! 0)) redFrames"
  let ?t0 = "replicate 131072 zeroCP"
  have sz: "(X (RMax (Bounds (redFrames ! 0))) - X (RMin (Bounds (redFrames ! 0))))
          * (Y (RMax (Bounds (redFrames ! 0))) - Y (RMin (Bounds (redFrames ! 0)))) * 2 = 131072"
    by (simp add: redFrames_def solid_def rgbaImage_def)
  have gb: "getBucket emptyPool None 131072
      = Inr (Slice ?t0 131072, \<lparr>Pool = [], maxCap = 131072\<rparr>)"
    by (simp add: getBucket_def emptyPool_def Pool_Get_def make_slice_def)
  have ne: "?xs \<noteq> []" using redFrames_scanned_length by auto
  have sc: "forEach (\<lambda>(m, y, x). scanPixel 131072 m y x) ?xs (?q, ?t0)
      = Some (Inr (?q, ?t0[65536 := colorPriority (p (?t0 ! 65536) + of_nat (length ?xs)) ?red]))"
    using scan_one_color[of ?xs ?red ?q 131072 ?t0, OF redFrames_samples] ne
    by (simp add: red_hash zeroCP_def)
  have w0: "p (?t0 ! 65536) + of_nat (length ?xs) = (0 :: 32 word)"
    by (simp add: redFrames_scanned_length zeroCP_def)
  have fl: "filter (\<lambda>e. p e \<noteq> 0) (?t0[65536 := colorPriority 0 ?red]) = []"
  proof (rule filter_all_zero)
    fix e assume "e \<in> set (?t0[65536 := colorPriority 0 ?red])"
    then have "e \<in> insert (colorPriority 0 ?red) (set ?t0)" using set_update_subset_insert by fast
    then show "p e = 0" by (auto simp: zeroCP_def)
  qed
  have l: "\<not> length redFrames < 1" by (simp add: redFrames_def)
  have nY: "\<not> isYCbCr (redFrames ! 0)" by (simp add: redFrames_def solid_def rgbaImage_def)
  have "buildBucketMultiple YCbCrToRGB ?q redFrames emptyPool None
      = Some (Inr (?q, Slice [] 131072, \<lparr>Pool = [], maxCap = 131072\<rparr>))"
    unfolding buildBucketMultiple_def Let_def scanImages_flat compact_eq sz
    by (simp only: l if_False gb sum.case prod.case sc option.case w0 fl nY slice.sel list.map)
  moreover have "length (filter opaque ?xs) = 4294967296"
  proof -
    have "filter opaque ?xs = ?xs"
      by (rule filter_True) (simp add: opaque_def redFrames_samples)
    then show ?thesis by (simp add: redFrames_scanned_length)
  qed
  ultimately show ?thesis by (simp add: totalWeight_def)
qed

lemma twoPixels_bucket:
  "map_option (map_sum id (\<lambda>(q', bucket, bp'). elems bucket))
     (buildBucketMultiple YCbCrToRGB
        \<lparr> Aggregation = Mode, Weighting = None, ReserveTransparent = False \<rparr>
        [twoPixels] emptyPool None) = Some (Inr [colorPriority 1 (RGBA 255 0 0 255)])"
  by code_simp

theorem buildBucketMultiple_total_weight_witness:
  "\<exists>q' bucket bp'.
     buildBucketMultiple YCbCrToRGB
        \<lparr> Aggregation = Mode, Weighting = None, ReserveTransparent = False \<rparr>
        [twoPixels] emptyPool None = Some (Inr (q', bucket, bp'))
     \<and> length (filter opaque (scanned (Bounds ([twoPixels] ! 0)) [twoPixels])) = 1
     \<and> totalWeight (elems bucket) = 1"
proof -
  from map_result_InrD[OF twoPixels_bucket] obtain u where
    u: "buildBucketMultiple YCbCrToRGB
        \<lparr> Aggregation = Mode, Weighting = None, ReserveTransparent = False \<rparr>
        [twoPixels] emptyPool None = Some (Inr u)" by blast
  obtain q' bucket bp' where "u = (q', bucket, bp')" by (cases u)
  with u have r: "buildBucketMultiple YCbCrToRGB
        \<lparr> Aggregation = Mode, Weighting = None, ReserveTransparent = False \<rparr>
        [twoPixels] emptyPool None = Some (Inr (q', bucket, bp'))" by simp
  have n: "length (filter opaque (scanned (Bounds ([twoPixels] ! 0)) [twoPixels])) = 1"
    by code_simp
  have "totalWeight (elems bucket) = 1"
    using buildBucketMultiple_total_weight[OF r] n by simp
  with r n show ?thesis by blast
qed

section \<open>The palette-index cache\<close>










section \<open>Slots in use hold distinct colors\<close>

lemma probe_stable_aux:
  assumes "probe t sz c index i = Some r"
  shows "\<forall>k. r = Inr k \<longrightarrow>
           stopSlot t c k \<and>
           (\<forall>t'. length t' = length t \<longrightarrow> stopSlot t' c k \<longrightarrow>
                 (\<forall>j < length t. j \<noteq> k \<longrightarrow> t' ! j = t ! j \<or> (p (t' ! j) \<noteq> 0 \<and> rgba (t' ! j) \<noteq> c))
                 \<longrightarrow> probe t' sz c index i = Some (Inr k))"
proof (rule probe.raw_induct[where P = "\<lambda>t sz c index i r. \<forall>k. r = Inr k \<longrightarrow>
           stopSlot t c k \<and>
           (\<forall>t'. length t' = length t \<longrightarrow> stopSlot t' c k \<longrightarrow>
                 (\<forall>j < length t. j \<noteq> k \<longrightarrow> t' ! j = t ! j \<or> (p (t' ! j) \<noteq> 0 \<and> rgba (t' ! j) \<noteq> c))
                 \<longrightarrow> probe t' sz c index i = Some (Inr k))"])
  show "probe t sz c index i = Some r" by (rule assms)
next
  fix probe' t sz c index i r
  assume IH: "\<And>t sz c index i r. probe' t sz c index i = Some r \<Longrightarrow>
        \<forall>k. r = Inr k \<longrightarrow>
           stopSlot t c k \<and>
           (\<forall>t'. length t' = length t \<longrightarrow> stopSlot t' c k \<longrightarrow>
                 (\<forall>j < length t. j \<noteq> k \<longrightarrow> t' ! j = t ! j \<or> (p (t' ! j) \<noteq> 0 \<and> rgba (t' ! j) \<noteq> c))
                 \<longrightarrow> probe t' sz c index i = Some (Inr k))"
    and eq: "(if sz = 0 then Some (Inl DivideByZero)
      else if index smod sz < 0 \<or> int (length t) \<le> index smod sz
        then Some (Inl IndexOutOfRange)
      else if p (t ! nat (index smod sz)) = 0 \<or> rgba (t ! nat (index smod sz)) = c
        then Some (Inr (nat (index smod sz)))
      else probe' t sz c (wrap64 (index + wrap64 (1 + i))) (wrap64 (i + 1))) = Some r"
  let ?s = "nat (index smod sz)"
  show "\<forall>k. r = Inr k \<longrightarrow>
           stopSlot t c k \<and>
           (\<forall>t'. length t' = length t \<longrightarrow> stopSlot t' c k \<longrightarrow>
                 (\<forall>j < length t. j \<noteq> k \<longrightarrow> t' ! j = t ! j \<or> (p (t' ! j) \<noteq> 0 \<and> rgba (t' ! j) \<noteq> c))
                 \<longrightarrow> probe t' sz c index i = Some (Inr k))"
  proof (intro allI impI)
    fix k assume r: "r = Inr k"
    have sz: "sz \<noteq> 0" using eq r by (auto split: if_splits)
    have rng: "\<not> (index smod sz < 0 \<or> int (length t) \<le> index smod sz)"
      using eq r sz by (auto split: if_splits)
    then have sl: "?s < length t" by linarith
    show "stopSlot t c k \<and>
           (\<forall>t'. length t' = length t \<longrightarrow> stopSlot t' c k \<longrightarrow>
                 (\<forall>j < length t. j \<noteq> k \<longrightarrow> t' ! j = t ! j \<or> (p (t' ! j) \<noteq> 0 \<and> rgba (t' ! j) \<noteq> c))
                 \<longrightarrow> probe t' sz c index i = Some (Inr k))"
    proof (cases "p (t ! ?s) = 0 \<or> rgba (t ! ?s) = c")
      case True
      then have k: "k = ?s" using eq r sz rng by (simp split: if_splits)
      have st: "stopSlot t c k" using True sl k by (simp add: stopSlot_def)
      have "probe t' sz c index i = Some (Inr k)"
        if "length t' = length t" "stopSlot t' c k" for t'
        using that sz rng k by (subst probe.simps) (auto simp: stopSlot_def)
      then show ?thesis using st by blast
    next
      case False
      then have rec: "probe' t sz c (wrap64 (index + wrap64 (1 + i))) (wrap64 (i + 1)) = Some (Inr k)"
        using eq r sz rng by (simp split: if_splits)
      from IH[OF rec] have st: "stopSlot t c k"
        and stab: "\<And>t'. length t' = length t \<Longrightarrow> stopSlot t' c k \<Longrightarrow>
                 (\<forall>j < length t. j \<noteq> k \<longrightarrow> t' ! j = t ! j \<or> (p (t' ! j) \<noteq> 0 \<and> rgba (t' ! j) \<noteq> c))
                 \<Longrightarrow> probe t' sz c (wrap64 (index + wrap64 (1 + i))) (wrap64 (i + 1)) = Some (Inr k)"
        by blast+
      have sk: "?s \<noteq> k" using st False by (auto simp: stopSlot_def)
      have "probe t' sz c index i = Some (Inr k)"
        if l: "length t' = length t" and s': "stopSlot t' c k"
          and o: "\<forall>j < length t. j \<noteq> k \<longrightarrow> t' ! j = t ! j \<or> (p (t' ! j) \<noteq> 0 \<and> rgba (t' ! j) \<noteq> c)" for t'
      proof -
        have "t' ! ?s = t ! ?s \<or> (p (t' ! ?s) \<noteq> 0 \<and> rgba (t' ! ?s) \<noteq> c)" using o sl sk by blast
        then have ns: "\<not> (p (t' ! ?s) = 0 \<or> rgba (t' ! ?s) = c)" using False by auto
        have "probe t' sz c index i = probe t' sz c (wrap64 (index + wrap64 (1 + i))) (wrap64 (i + 1))"
          using sz rng l ns by (subst probe.simps) simp
        then show ?thesis using stab[OF l s' o] by simp
      qed
      then show ?thesis using st by blast
    qed
  qed
qed

lemma probe_stable:
  assumes "probe t sz c index i = Some (Inr k)" "length t' = length t" "stopSlot t' c k"
    "\<And>j. j < length t \<Longrightarrow> j \<noteq> k \<Longrightarrow> t' ! j = t ! j \<or> (p (t' ! j) \<noteq> 0 \<and> rgba (t' ! j) \<noteq> c)"
  shows "probe t' sz c index i = Some (Inr k)"
  using probe_stable_aux[OF assms(1)] assms(2-4) by blast

lemma tableInv_store:
  assumes inv: "tableInv sz t seen"
    and pr: "probe t sz c (hashIndex c) 1 = Some (Inr k)"
    and nz: "w \<noteq> 0"
  shows "tableInv sz (t[k := colorPriority w c]) (insert c seen)"
  unfolding tableInv_def
proof (intro allI impI)
  let ?t' = "t[k := colorPriority w c]"
  fix j assume j: "j < length ?t'" and pj: "p (?t' ! j) \<noteq> 0"
  have k: "k < length t" using probe_stops[OF pr] by (simp add: stopSlot_def)
  show "rgba (?t' ! j) \<in> insert c seen \<and>
        probe ?t' sz (rgba (?t' ! j)) (hashIndex (rgba (?t' ! j))) 1 = Some (Inr j)"
  proof (cases "j = k")
    case True
    have "probe ?t' sz c (hashIndex c) 1 = Some (Inr k)"
      using pr k by (intro probe_stable[OF pr]) (auto simp: stopSlot_def)
    then show ?thesis using True k by simp
  next
    case False
    let ?cj = "rgba (t ! j)"
    have tj: "?t' ! j = t ! j" using False by simp
    have jl: "j < length t" using j by simp
    from inv jl pj tj have seen: "?cj \<in> seen"
      and pj': "probe t sz ?cj (hashIndex ?cj) 1 = Some (Inr j)"
      by (auto simp: tableInv_def)
    have ne: "c \<noteq> ?cj"
    proof
      assume "c = ?cj"
      then have "k = j" using pr pj' by simp
      then show False using False by simp
    qed
    have "probe ?t' sz ?cj (hashIndex ?cj) 1 = Some (Inr j)"
    proof (rule probe_stable[OF pj'])
      show "length ?t' = length t" by simp
      show "stopSlot ?t' ?cj j" using probe_stops[OF pj'] False by (simp add: stopSlot_def)
      fix i assume "i < length t" "i \<noteq> j"
      then show "?t' ! i = t ! i \<or> (p (?t' ! i) \<noteq> 0 \<and> rgba (?t' ! i) \<noteq> ?cj)"
        using nz ne by (cases "i = k") auto
    qed
    then show ?thesis using seen tj by simp
  qed
qed

lemma tableInv_mono: "tableInv sz t seen \<Longrightarrow> seen \<subseteq> seen' \<Longrightarrow> tableInv sz t seen'"
  unfolding tableInv_def by blast

lemma tableInv_count:
  assumes inv: "tableInv sz t seen" and fin: "finite seen"
  shows "length (filter (\<lambda>e. p e \<noteq> 0) t) \<le> card seen"
proof -
  let ?K = "{k. k < length t \<and> p (t ! k) \<noteq> 0}"
  have "inj_on (\<lambda>k. rgba (t ! k)) ?K"
  proof (rule inj_onI)
    fix a b assume a: "a \<in> ?K" and b: "b \<in> ?K" and e: "rgba (t ! a) = rgba (t ! b)"
    have "probe t sz (rgba (t ! a)) (hashIndex (rgba (t ! a))) 1 = Some (Inr a)"
      using inv a by (simp add: tableInv_def)
    then have pa: "probe t sz (rgba (t ! b)) (hashIndex (rgba (t ! b))) 1 = Some (Inr a)"
      unfolding e .
    have pb: "probe t sz (rgba (t ! b)) (hashIndex (rgba (t ! b))) 1 = Some (Inr b)"
      using inv b by (simp add: tableInv_def)
    have "(Some (Inr a) :: (panic + nat) option) = Some (Inr b)"
      by (rule trans[OF pa[symmetric] pb])
    then show "a = b" by (simp only: option.inject sum.inject)
  qed
  then have "card ?K = card ((\<lambda>k. rgba (t ! k)) ` ?K)" by (simp add: card_image)
  also have "\<dots> \<le> card seen"
  proof (rule card_mono[OF fin])
    show "(\<lambda>k. rgba (t ! k)) ` ?K \<subseteq> seen" using inv by (auto simp: tableInv_def)
  qed
  finally show ?thesis by (simp add: length_filter_conv_card)
qed

lemma scan_table:
  assumes run: "forEach (\<lambda>(m, y, x). scanPixel sz m y x) xs (q, tbl) = Some (Inr (q', tbl'))"
    and bound: "totalWeight tbl + sum_list (map (weightOf q) xs) < 2 ^ 32"
    and init: "tableInv sz tbl {}"
  shows "tableInv sz tbl' (sampleOf ` {px \<in> set xs. opaque px})"
proof -
  let ?P = "\<lambda>pre st. Weighting (fst st) = Weighting q \<and>
              totalWeight (snd st) = totalWeight tbl + sum_list (map (weightOf q) pre) \<and>
              tableInv sz (snd st) (sampleOf ` {px \<in> set pre. opaque px})"
  have "?P xs (q', tbl')"
  proof (rule forEach_rule[OF run, where P = ?P])
    show "?P [] (q, tbl)" using init by simp
  next
    fix pre px rest s s1
    assume xs: "xs = pre @ px # rest" and P: "?P pre s"
      and b: "(case px of (m, y, x) \<Rightarrow> scanPixel sz m y x) s = Some (Inr s1)"
    obtain m y x where px: "px = (m, y, x)" by (cases px)
    obtain q0 t0 where s: "s = (q0, t0)" by (cases s)
    obtain q1 t1 where s1: "s1 = (q1, t1)" by (cases s1)
    have W: "Weighting q0 = Weighting q"
      and T: "totalWeight t0 = totalWeight tbl + sum_list (map (weightOf q) pre)"
      and I: "tableInv sz t0 (sampleOf ` {px \<in> set pre. opaque px})"
      using P by (simp_all add: s)
    have pr: "priorityAt q0 m x y = priorityAt q m x y" using W by (rule priorityAt_cong)
    have bd: "totalWeight t0 + weightOf q px < 2 ^ 32" using bound T by (simp add: xs)
    have sub: "sampleOf ` {px \<in> set pre. opaque px} \<subseteq> sampleOf ` {p' \<in> set (pre @ [px]). opaque p'}"
      by auto
    from b have sp: "scanPixel sz m y x (q0, t0) = Some (Inr (q1, t1))" by (simp add: px s s1)
    from sp show "?P (pre @ [px]) s1"
    proof (cases rule: scanPixel_cases)
      case transparent
      have "tableInv sz t1 (sampleOf ` {p' \<in> set (pre @ [px]). opaque p'})"
        using tableInv_mono[OF I sub] transparent(3) by simp
      then show ?thesis using W T transparent
        by (simp add: px s1 weightOf_def opaque_def sampleOf_def)
    next
      case skipped
      have "tableInv sz t1 (sampleOf ` {p' \<in> set (pre @ [px]). opaque p'})"
        using tableInv_mono[OF I sub] skipped(4) by simp
      then show ?thesis using W T pr skipped
        by (simp add: px s1 weightOf_def opaque_def sampleOf_def)
    next
      case (stored k)
      let ?c = "colorAt m x y"
      let ?w = "priorityAt q0 m x y"
      have k: "k < length t0" using probe_stops[OF stored(4)] by (simp add: stopSlot_def)
      have op: "opaque px" using stored(1) by (simp add: px opaque_def sampleOf_def)
      have wo: "weightOf q px = unat ?w"
        using stored(1) pr by (simp add: px weightOf_def opaque_def sampleOf_def)
      have tw: "totalWeight t1 = totalWeight t0 + unat ?w"
        unfolding stored(5) using bd wo by (intro totalWeight_store[OF k]) simp
      have le: "unat (p (t0 ! k)) \<le> totalWeight t0" using k by (rule slot_le_totalWeight)
      then have "unat (p (t0 ! k)) + unat ?w < 2 ^ LENGTH(32)" using bd wo by simp
      then have "unat (p (t0 ! k) + ?w) = unat (p (t0 ! k)) + unat ?w"
        by (rule unat_add_lem[THEN iffD1])
      moreover have "unat ?w \<noteq> 0" using stored(2) by (simp add: unat_eq_0)
      ultimately have nz: "p (t0 ! k) + ?w \<noteq> 0" by (metis add_is_0 unat_eq_0)
      have "tableInv sz t1 (insert ?c (sampleOf ` {px \<in> set pre. opaque px}))"
        unfolding stored(5) by (rule tableInv_store[OF I stored(4) nz])
      moreover have "insert ?c (sampleOf ` {px \<in> set pre. opaque px})
          \<subseteq> sampleOf ` {p' \<in> set (pre @ [px]). opaque p'}"
      proof -
        have "?c = sampleOf px" by (simp add: px sampleOf_def)
        moreover have "px \<in> {p' \<in> set (pre @ [px]). opaque p'}" using op by simp
        ultimately have "?c \<in> sampleOf ` {p' \<in> set (pre @ [px]). opaque p'}" by (rule image_eqI)
        then show ?thesis using sub by blast
      qed
      ultimately have "tableInv sz t1 (sampleOf ` {p' \<in> set (pre @ [px]). opaque p'})"
        by (rule tableInv_mono)
      then show ?thesis using W T wo tw stored(3) by (simp add: s1)
    qed
  qed
  then show ?thesis by simp
qed

lemma tableInv_zero: "tableInv sz (replicate n zeroCP) {}"
  by (simp add: tableInv_def zeroCP_def)

lemma buildBucketMultiple_distinct:
  assumes run: "buildBucketMultiple ycc q ms bp choice = Some (Inr (q', bucket, bp'))"
    and bound: "sum_list (map (weightOf q) (scanned (Bounds (ms ! 0)) ms)) < 2 ^ 32"
  shows "length (elems bucket) \<le> card (opaqueColors (Bounds (ms ! 0)) ms)"
  using run
proof (cases rule: buildBucketMultiple_cases)
  case empty
  then show ?thesis by simp
next
  case (scan sparse tbl)
  have e: "elems sparse = replicate (nat ((X (RMax (Bounds (ms ! 0))) - X (RMin (Bounds (ms ! 0))))
          * (Y (RMax (Bounds (ms ! 0))) - Y (RMin (Bounds (ms ! 0)))) * 2)) zeroCP"
    using getBucket_zeroed[OF scan(2)] by simp
  have "tableInv ((X (RMax (Bounds (ms ! 0))) - X (RMin (Bounds (ms ! 0))))
          * (Y (RMax (Bounds (ms ! 0))) - Y (RMin (Bounds (ms ! 0)))) * 2) tbl
          (sampleOf ` {px \<in> set (scanned (Bounds (ms ! 0)) ms). opaque px})"
    using bound by (intro scan_table[OF scan(3)]) (simp_all add: e totalWeight_zero tableInv_zero)
  then have "length (filter (\<lambda>e. p e \<noteq> 0) tbl) \<le> card (opaqueColors (Bounds (ms ! 0)) ms)"
    unfolding opaqueColors_def by (rule tableInv_count) simp
  then show ?thesis unfolding scan(4) by simp
qed

section \<open>Palette size\<close>

lemma bucketize_loop_bound_aux:
  assumes "bucketize_loop part num colors buckets = Some r"
  shows "\<forall>bs. r = Inr bs \<longrightarrow>
           int (length bs) \<le> max (int (length buckets)) (min num (int (length colors)))"
proof (rule bucketize_loop.raw_induct[where P = "\<lambda>part num colors buckets r. \<forall>bs. r = Inr bs \<longrightarrow>
           int (length bs) \<le> max (int (length buckets)) (min num (int (length colors)))"])
  show "bucketize_loop part num colors buckets = Some r" by (rule assms)
next
  fix loop' part num colors buckets r
  assume IH: "\<And>part num colors buckets r. loop' part num colors buckets = Some r \<Longrightarrow>
        \<forall>bs. r = Inr bs \<longrightarrow>
           int (length bs) \<le> max (int (length buckets)) (min num (int (length colors)))"
    and eq: "(if int (length buckets) < num \<and> length buckets < length colors then
        (case buckets of
           [] \<Rightarrow> Some (Inl IndexOutOfRange)
         | bucket # rest \<Rightarrow>
             if length bucket < 2 then loop' part num colors (rest @ [bucket])
             else if length bucket = 2
               then loop' part num colors (rest @ [take 1 bucket, drop 1 bucket])
             else (case part bucket of
                     (left, right) \<Rightarrow> loop' part num colors (rest @ [left, right])))
      else Some (Inr buckets)) = Some r"
  show "\<forall>bs. r = Inr bs \<longrightarrow>
           int (length bs) \<le> max (int (length buckets)) (min num (int (length colors)))"
  proof (intro allI impI)
    fix bs assume r: "r = Inr bs"
    show "int (length bs) \<le> max (int (length buckets)) (min num (int (length colors)))"
    proof (cases "int (length buckets) < num \<and> length buckets < length colors")
      case False
      from eq have "Some (Inr buckets) = Some r" unfolding if_not_P[OF False] .
      then have "bs = buckets" using r by simp
      then show ?thesis by simp
    next
      case True
      then obtain bucket rest where br: "buckets = bucket # rest"
        using eq r by (cases buckets) auto
      obtain nxt where nx: "loop' part num colors nxt = Some (Inr bs)"
        and ln: "length nxt \<le> Suc (length buckets)"
        using eq r True br by (auto split: if_splits prod.splits)
      from IH[OF nx] have "int (length bs) \<le> max (int (length nxt)) (min num (int (length colors)))"
        by blast
      then show ?thesis using ln True by (auto simp: max_def min_def split: if_splits)
    qed
  qed
qed

lemma bucketize_bound:
  assumes "bucketize part colors num = Some (Inr bs)"
  shows "int (length bs) \<le> max 0 num \<and> length bs \<le> length colors"
proof (cases "length colors = 0 \<or> num = 0")
  case True
  then have "bs = []" using assms by (auto simp: bucketize_def)
  then show ?thesis by simp
next
  case False
  then have n: "\<not> num * 2 < 1" and lp: "bucketize_loop part num colors [colors] = Some (Inr bs)"
    using assms by (auto simp: bucketize_def split: if_splits)
  from bucketize_loop_bound_aux[OF lp]
  have "int (length bs) \<le> max (int (length [colors])) (min num (int (length colors)))" by blast
  moreover have "1 \<le> length colors" using False by (cases colors) auto
  ultimately show ?thesis using False n by (auto simp: max_def min_def split: if_splits)
qed

lemma palettize_appends:
  "\<exists>new. palettize mean q pal buckets = pal @ new \<and> length new \<le> length buckets"
  unfolding palettize_def
proof (induction buckets arbitrary: pal)
  case Nil
  then show ?case by simp
next
  case (Cons b bs)
  let ?f = "\<lambda>bucket pl.
             if Aggregation q = Mean then pl @ [mean bucket]
             else if Aggregation q = Mode then pl @ [rgba (mode_best bucket)]
             else pl"
  define one where "one = (if Aggregation q = Mean then [mean b]
                           else if Aggregation q = Mode then [rgba (mode_best b)] else [])"
  have o: "?f b pal = pal @ one" "length one \<le> 1" by (simp_all add: one_def)
  from Cons.IH[of "pal @ one"] obtain new where
    n: "fold ?f bs (pal @ one) = (pal @ one) @ new" "length new \<le> length bs" by blast
  have "fold ?f (b # bs) pal = pal @ (one @ new)" using o(1) n(1) by simp
  moreover have "length (one @ new) \<le> length (b # bs)" using o(2) n(2) by simp
  ultimately show ?case by blast
qed

lemma quantizeSlice_appends:
  assumes "quantizeSlice part mean q pal capp colors = Some (Inr pal')"
  shows "\<exists>new. pal' = pal @ new
           \<and> int (length new) \<le> max 0 (int capp - int (length pal) - (if ReserveTransparent q then 1 else 0))
           \<and> length new \<le> length colors"
proof -
  let ?n = "int capp - int (length pal) - (if ReserveTransparent q then 1 else 0)"
  obtain bs where b: "bucketize part colors ?n = Some (Inr bs)" and p': "pal' = palettize mean q pal bs"
    using assms unfolding quantizeSlice_def Let_def
    by (cases "bucketize part colors ?n") (auto split: sum.splits if_splits)
  from palettize_appends[of mean q pal bs] obtain new where
    n: "palettize mean q pal bs = pal @ new" "length new \<le> length bs" by blast
  from bucketize_bound[OF b] have "int (length bs) \<le> max 0 ?n" "length bs \<le> length colors" by simp_all
  then show ?thesis using n p' by (intro exI[of _ new]) auto
qed

text \<open>
  C1, as amended. Whenever \<^verbatim>\<open>QuantizeMultiple\<close> returns, the palette it returns is the
  caller's palette followed by new entries. With \<open>C\<close> the caller's free capacity
  (\<^verbatim>\<open>cap(p) - len(p)\<close>, minus one when \<^verbatim>\<open>ReserveTransparent\<close> is set after the scan), at
  most \<open>max 0 C\<close> entries are new; and when the weights added during the scan stay below
  \<open>2^32\<close> in total, at most as many entries are new as there are distinct colors among the
  scanned pixels of non-zero alpha.
\<close>

theorem QuantizeMultiple_appends_bounded:
  assumes "QuantizeMultiple part mean ycc q pal capp ms bp choice = Some (Inr (q', pal', bp'))"
  shows "\<exists>new. pal' = pal @ new
           \<and> int (length new) \<le> max 0 (int capp - int (length pal) - (if ReserveTransparent q' then 1 else 0))
           \<and> (sum_list (map (weightOf q) (scanned (Bounds (ms ! 0)) ms)) < 2 ^ 32
                \<longrightarrow> length new \<le> card (opaqueColors (Bounds (ms ! 0)) ms))"
  using assms
proof (cases rule: QuantizeMultiple_cases)
  case (1 bucket bp1)
  from quantizeSlice_appends[OF 1(2)] obtain new where
    n: "pal' = pal @ new"
       "int (length new) \<le> max 0 (int capp - int (length pal) - (if ReserveTransparent q' then 1 else 0))"
       "length new \<le> length (elems bucket)" by blast
  have "length new \<le> card (opaqueColors (Bounds (ms ! 0)) ms)"
    if "sum_list (map (weightOf q) (scanned (Bounds (ms ! 0)) ms)) < 2 ^ 32"
    using buildBucketMultiple_distinct[OF 1(1) that] n(3) by simp
  then show ?thesis using n(1,2) by blast
qed

section \<open>Palette size on concrete frames\<close>

lemma opaqueColors_list:
  "opaqueColors bounds ms = set (map sampleOf (filter opaque (scanned bounds ms)))"
  by (auto simp: opaqueColors_def)

lemma card_opaqueColors:
  "card (opaqueColors bounds ms) = length (remdups (map sampleOf (filter opaque (scanned bounds ms))))"
  unfolding opaqueColors_list by (rule List.card_set)

lemma wrapFrame_colors:
  "length (remdups (map sampleOf (filter opaque (scanned (Bounds ([wrapFrame] ! 0)) [wrapFrame])))) = 2"
  by code_simp

lemma wrapFrame_quantized:
  "map_option (map_sum id (\<lambda>(q', pal', bp'). (ReserveTransparent q', pal')))
     (QuantizeMultiple partition_cb mean_cb YCbCrToRGB
        \<lparr> Aggregation = Mode, Weighting = Some heavy, ReserveTransparent = False \<rparr>
        [RGBA 0 0 0 255] 4 [wrapFrame] emptyPool None)
   = Some (Inr (False, [RGBA 0 0 0 255, RGBA 0 0 1 255, RGBA 0 0 1 255, RGBA 0 0 11 255]))"
  by code_simp

text \<open>
  C1 as stated bounds the whole returned palette by \<open>C\<close> and by the number of distinct
  opaque colors. Here the caller's palette holds one entry and has capacity 4, so \<open>C = 3\<close>,
  and the frame has two distinct colors. The second sample of the color \<open>(0,0,11)\<close> wraps
  the weight of its slot to 0; the slot then reads as empty and the color \<open>(0,0,1)\<close>, which
  already has a slot, takes it; the next sample of \<open>(0,0,11)\<close> goes to a third slot. The
  dense bucket has three samples for two colors, and the returned palette has four entries,
  three of them new.
\<close>

theorem QuantizeMultiple_exceeds_capacity_and_colors:
  "map_option (map_sum id (\<lambda>(q', pal', bp'). (ReserveTransparent q', pal')))
     (QuantizeMultiple partition_cb mean_cb YCbCrToRGB
        \<lparr> Aggregation = Mode, Weighting = Some heavy, ReserveTransparent = False \<rparr>
        [RGBA 0 0 0 255] 4 [wrapFrame] emptyPool None)
   = Some (Inr (False, [RGBA 0 0 0 255, RGBA 0 0 1 255, RGBA 0 0 1 255, RGBA 0 0 11 255]))
   \<and> card (opaqueColors (Bounds ([wrapFrame] ! 0)) [wrapFrame]) = 2"
  using wrapFrame_quantized wrapFrame_colors by (simp only: card_opaqueColors simp_thms)

lemma rgbFrames_quantized:
  "map_option (map_sum id (\<lambda>(q', pal', bp'). (ReserveTransparent q', pal')))
     (QuantizeMultiple partition_cb mean_cb YCbCrToRGB
        \<lparr> Aggregation = Mode, Weighting = None, ReserveTransparent = False \<rparr>
        [] 256 rgbFrames emptyPool None)
   = Some (Inr (False, [RGBA 0 255 0 255, RGBA 0 0 255 255, RGBA 255 0 0 255]))"
  by code_simp

lemma rgbFrames_weight:
  "sum_list (map (weightOf \<lparr> Aggregation = Mode, Weighting = None, ReserveTransparent = False \<rparr>)
               (scanned (Bounds (rgbFrames ! 0)) rgbFrames)) = 12"
  by code_simp

lemma rgbFrames_colors:
  "length (remdups (map sampleOf (filter opaque (scanned (Bounds (rgbFrames ! 0)) rgbFrames)))) = 3"
  by code_simp

theorem QuantizeMultiple_appends_bounded_witness:
  "\<exists>q' pal' bp' new.
     QuantizeMultiple partition_cb mean_cb YCbCrToRGB
        \<lparr> Aggregation = Mode, Weighting = None, ReserveTransparent = False \<rparr>
        [] 256 rgbFrames emptyPool None = Some (Inr (q', pal', bp'))
     \<and> pal' = [RGBA 0 255 0 255, RGBA 0 0 255 255, RGBA 255 0 0 255]
     \<and> pal' = [] @ new
     \<and> int (length new) \<le> max 0 (int 256 - int (length ([] :: RGBA list)) - (if ReserveTransparent q' then 1 else 0))
     \<and> card (opaqueColors (Bounds (rgbFrames ! 0)) rgbFrames) = 3
     \<and> length new \<le> card (opaqueColors (Bounds (rgbFrames ! 0)) rgbFrames)"
proof -
  let ?q = "\<lparr> Aggregation = Mode, Weighting = None, ReserveTransparent = False \<rparr>"
  from map_result_InrD[OF rgbFrames_quantized] obtain u where
    u: "QuantizeMultiple partition_cb mean_cb YCbCrToRGB ?q [] 256 rgbFrames emptyPool None = Some (Inr u)"
    and fu: "(case u of (q', pal', bp') \<Rightarrow> (ReserveTransparent q', pal'))
               = (False, [RGBA 0 255 0 255, RGBA 0 0 255 255, RGBA 255 0 0 255])"
    by blast
  obtain q' pal' bp' where un: "u = (q', pal', bp')" by (cases u)
  have r: "QuantizeMultiple partition_cb mean_cb YCbCrToRGB ?q [] 256 rgbFrames emptyPool None
             = Some (Inr (q', pal', bp'))" using u un by simp
  have p': "pal' = [RGBA 0 255 0 255, RGBA 0 0 255 255, RGBA 255 0 0 255]" using fu un by simp
  have w: "sum_list (map (weightOf ?q) (scanned (Bounds (rgbFrames ! 0)) rgbFrames)) < 2 ^ 32"
    by (simp add: rgbFrames_weight)
  have c: "card (opaqueColors (Bounds (rgbFrames ! 0)) rgbFrames) = 3"
    by (simp only: card_opaqueColors rgbFrames_colors)
  from QuantizeMultiple_appends_bounded[OF r] w obtain new where
    "pal' = [] @ new"
    "int (length new) \<le> max 0 (int 256 - int (length ([] :: RGBA list)) - (if ReserveTransparent q' then 1 else 0))"
    "length new \<le> card (opaqueColors (Bounds (rgbFrames ! 0)) rgbFrames)"
    by blast
  then show ?thesis using r p' c by blast
qed

section \<open>Runs that return\<close>

text \<open>
  When \<^verbatim>\<open>Pool.Get\<close> yields nil or a \<^verbatim>\<open>colorBucket\<close> value, \<^verbatim>\<open>getBucket(c)\<close> returns \<open>c\<close>
  zero samples and leaves \<^verbatim>\<open>maxCap\<close> at \<open>c\<close> or above. Only the stored pointer makes it
  panic.
\<close>

lemma getBucket_without_pointer:
  assumes "0 \<le> c" and "\<And>s. fst (Pool_Get (Pool bp) choice) \<noteq> Some (ColorBucketPointer s)"
  shows "\<exists>s bp'. getBucket bp choice c = Inr (s, bp') \<and> elems s = replicate (nat c) zeroCP
           \<and> c \<le> maxCap bp'"
proof -
  obtain val items where pg: "Pool_Get (Pool bp) choice = (val, items)"
    by (cases "Pool_Get (Pool bp) choice")
  have np: "\<And>s. val \<noteq> Some (ColorBucketPointer s)" using assms(2) pg by simp
  have "\<exists>s bp'. getBucket bp choice c = Inr (s, bp')"
  proof (cases val)
    case None
    then show ?thesis using assms(1) pg
      by (auto simp: getBucket_def Let_def make_slice_def)
  next
    case (Some v)
    then obtain s where "v = ColorBucketValue s" using np by (cases v) auto
    then show ?thesis using assms(1) pg Some
      by (auto simp: getBucket_def Let_def make_slice_def)
  qed
  then obtain s bp' where g: "getBucket bp choice c = Inr (s, bp')" by blast
  from getBucket_zeroed[OF g] g show ?thesis by blast
qed

text \<open>
  A pixel of alpha 0, once \<^verbatim>\<open>ReserveTransparent\<close> is set, is written without any lookup:
  the cache and the record of searches stay as they are.
\<close>

lemma emitPixel_transparent:
  assumes "ReserveTransparent q" and "snd (snd (snd (At_RGBA img x y))) = 0"
  shows "\<exists>off. emitPixel idx q pal transVal img y x (animId, srch, pix)
                 = (animId, srch, pix[off := transVal])"
  using assms by (auto simp: emitPixel_def Let_def)

text \<open>
  Two runs that both return give the same receiver and the same samples, whatever the
  pool held: the buffer \<^verbatim>\<open>getBucket\<close> returns is zeroed in either case.
\<close>

lemma buildBucketMultiple_pool_independent:
  assumes r1: "buildBucketMultiple ycc q ms bp1 ch1 = Some (Inr (q1, b1, p1))"
    and r2: "buildBucketMultiple ycc q ms bp2 ch2 = Some (Inr (q2, b2, p2))"
  shows "q1 = q2 \<and> elems b1 = elems b2"
  using r1
proof (cases rule: buildBucketMultiple_cases)
  case empty
  from r2 empty(1) have "(q, Slice [] 0, bp2) = (q2, b2, p2)" by (simp add: buildBucketMultiple_def)
  then have "q2 = q" "b2 = Slice [] 0" by (metis prod.inject)+
  then show ?thesis using empty by simp
next
  case s1: (scan sparse1 tbl1)
  from r2 show ?thesis
  proof (cases rule: buildBucketMultiple_cases)
    case empty
    then show ?thesis using s1(1) by simp
  next
    case s2: (scan sparse2 tbl2)
    have "elems sparse1 = elems sparse2"
      using getBucket_zeroed[OF s1(2)] getBucket_zeroed[OF s2(2)] by simp
    then have "(q1, tbl1) = (q2, tbl2)" using s1(3) s2(3) by simp
    then have "q1 = q2" "tbl1 = tbl2" by (metis prod.inject)+
    then show ?thesis using s1(4) s2(4) by simp
  qed
qed

lemma QuantizeMultiple_pool_independent:
  assumes r1: "QuantizeMultiple part mean ycc q pal capp ms bp1 ch1 = Some (Inr (q1, pal1, p1))"
    and r2: "QuantizeMultiple part mean ycc q pal capp ms bp2 ch2 = Some (Inr (q2, pal2, p2))"
  shows "q1 = q2 \<and> pal1 = pal2"
  using r1
proof (cases rule: QuantizeMultiple_cases)
  case a: (1 bucket1 bq1)
  from r2 show ?thesis
  proof (cases rule: QuantizeMultiple_cases)
    case b: (1 bucket2 bq2)
    from buildBucketMultiple_pool_independent[OF a(1) b(1)]
    have e: "q1 = q2" "elems bucket1 = elems bucket2" by simp_all
    then have "pal1 = pal2" using a(2) b(2) by simp
    then show ?thesis using e by simp
  qed
qed

lemma encodeWith_pool_independent:
  assumes r1: "encodeWith v part mean ycc idx im bp1 ch1 = Some (Inr (Encoded g1))"
    and r2: "encodeWith v part mean ycc idx im bp2 ch2 = Some (Inr (Encoded g2))"
  shows "ColorModel g1 = ColorModel g2 \<and> ImagePix g1 = ImagePix g2"
proof -
  let ?q = "\<lparr> Aggregation = Mode, Weighting = None, ReserveTransparent = False \<rparr>"
  have ne: "length im \<noteq> 0" using r1 by (auto simp: encodeWith_def)
  have ex: "\<exists>q' pal bp' animId srch frames.
      QuantizeMultiple part mean ycc ?q [] 256 im bp choice = Some (Inr (q', pal, bp'))
      \<and> forEach (emitFrame idx q' (if ReserveTransparent q' then pal @ [RGBA 0 0 0 0] else pal)
                   (if ReserveTransparent q' \<and> v then word_of_nat (length pal) else 0)) im
                  (Map.empty, [], []) = Some (Inr (animId, srch, frames))
      \<and> ColorModel g = (if ReserveTransparent q' then pal @ [RGBA 0 0 0 0] else pal)
      \<and> ImagePix g = frames"
    if r: "encodeWith v part mean ycc idx im bp choice = Some (Inr (Encoded g))" for bp choice g
  proof -
    obtain q' pal bp' where qm: "QuantizeMultiple part mean ycc ?q [] 256 im bp choice = Some (Inr (q', pal, bp'))"
      using r ne unfolding encodeWith_def Let_def
      by (cases "QuantizeMultiple part mean ycc ?q [] 256 im bp choice") (auto split: sum.splits)
    let ?tid = "if ReserveTransparent q' \<and> v then word_of_nat (length pal) else (0 :: 8 word)"
    let ?pal = "if ReserveTransparent q' then pal @ [RGBA 0 0 0 0] else pal"
    obtain animId srch frames where
      fr: "forEach (emitFrame idx q' ?pal ?tid) im (Map.empty, [], []) = Some (Inr (animId, srch, frames))"
      using r ne unfolding encodeWith_def Let_def qm
      by (cases "forEach (emitFrame idx q' ?pal ?tid) im (Map.empty, [], [])") (auto split: sum.splits)
    have "g = \<lparr> ColorModel = ?pal, ImagePix = frames, searched = srch, poolAfter = bp' \<rparr>"
      using r ne fr unfolding encodeWith_def Let_def qm by simp
    then have "ColorModel g = ?pal" "ImagePix g = frames" by simp_all
    then show ?thesis using qm fr by blast
  qed
  from ex[OF r1] obtain q1 pal1 b1 a1 s1 f1 where
    A: "QuantizeMultiple part mean ycc ?q [] 256 im bp1 ch1 = Some (Inr (q1, pal1, b1))"
       "forEach (emitFrame idx q1 (if ReserveTransparent q1 then pal1 @ [RGBA 0 0 0 0] else pal1)
                   (if ReserveTransparent q1 \<and> v then word_of_nat (length pal1) else 0)) im
                  (Map.empty, [], []) = Some (Inr (a1, s1, f1))"
       "ColorModel g1 = (if ReserveTransparent q1 then pal1 @ [RGBA 0 0 0 0] else pal1)"
       "ImagePix g1 = f1" by blast
  from ex[OF r2] obtain q2 pal2 b2 a2 s2 f2 where
    B: "QuantizeMultiple part mean ycc ?q [] 256 im bp2 ch2 = Some (Inr (q2, pal2, b2))"
       "forEach (emitFrame idx q2 (if ReserveTransparent q2 then pal2 @ [RGBA 0 0 0 0] else pal2)
                   (if ReserveTransparent q2 \<and> v then word_of_nat (length pal2) else 0)) im
                  (Map.empty, [], []) = Some (Inr (a2, s2, f2))"
       "ColorModel g2 = (if ReserveTransparent q2 then pal2 @ [RGBA 0 0 0 0] else pal2)"
       "ImagePix g2 = f2" by blast
  from QuantizeMultiple_pool_independent[OF A(1) B(1)] have e: "q1 = q2" "pal1 = pal2" by simp_all
  have "(a1, s1, f1) = (a2, s2, f2)" using A(2) B(2) unfolding e by simp
  then have "f1 = f2" by (metis prod.inject)
  then show ?thesis using A(3,4) B(3,4) e by simp
qed

end
